theory Spec2Isabelle
  imports Complex_Main "HOL-Library.Word"
begin

unbundle bit_operations_syntax

section \<open>JavaScript numbers and Buffer primitives\<close>

text \<open>
  The bitwise operators of JavaScript convert their operands with ToInt32 and work on
  32-bit two's-complement integers. Numbers that stay integral and below \<open>2 ^ 53\<close> are
  exact, so a JavaScript number is an \<open>int\<close> here; the bitwise operators truncate to
  32 bits first.
\<close>

type_synonym byte = "8 word"

definition ToInt32 :: "int \<Rightarrow> int" where
  "ToInt32 x = signed_take_bit 31 x"

definition js_shl :: "int \<Rightarrow> nat \<Rightarrow> int" where
  "js_shl x n = ToInt32 (push_bit n (ToInt32 x))"

definition js_sar :: "int \<Rightarrow> nat \<Rightarrow> int" where
  "js_sar x n = drop_bit n (ToInt32 x)"

definition js_and :: "int \<Rightarrow> int \<Rightarrow> int" where
  "js_and x y = ToInt32 x AND ToInt32 y"

definition js_or :: "int \<Rightarrow> int \<Rightarrow> int" where
  "js_or x y = ToInt32 x OR ToInt32 y"

definition js_not :: "int \<Rightarrow> int" where
  "js_not x = NOT (ToInt32 x)"

text \<open>\<open>Buffer.from(array)\<close>: every number is stored modulo 256.\<close>

definition Buffer_from :: "int list \<Rightarrow> byte list" where
  "Buffer_from xs = map word_of_int xs"

text \<open>\<open>buffer[i]\<close>: \<open>undefined\<close> (here \<open>None\<close>) outside the buffer.\<close>

definition buf_at :: "byte list \<Rightarrow> int \<Rightarrow> byte option" where
  "buf_at buf i = (if 0 \<le> i \<and> i < int (length buf) then Some (buf ! nat i) else None)"

text \<open>\<open>buffer.indexOf(value, from)\<close> for \<open>from \<ge> 0\<close>: the first index at or after
  \<open>from\<close> holding the value, or \<open>-1\<close>.\<close>

fun index_from :: "byte \<Rightarrow> nat \<Rightarrow> byte list \<Rightarrow> int" where
  "index_from v i [] = -1"
| "index_from v i (b # bs) = (if b = v then int i else index_from v (Suc i) bs)"

definition indexOf :: "byte list \<Rightarrow> byte \<Rightarrow> nat \<Rightarrow> int" where
  "indexOf buf v from = index_from v from (drop from buf)"

text \<open>\<open>buffer.slice(start, end)\<close> for \<open>0 \<le> start\<close> and \<open>0 \<le> end\<close> (the only calls
  the code makes): both bounds are clamped to the length.\<close>

definition slice :: "byte list \<Rightarrow> int \<Rightarrow> int \<Rightarrow> byte list" where
  "slice buf s e = drop (nat s) (take (nat e) buf)"

definition slice_from :: "byte list \<Rightarrow> int \<Rightarrow> byte list" where
  "slice_from buf s = drop (nat s) buf"

text \<open>\<open>String.fromCharCode\<close> of a byte and \<open>charCodeAt(0)\<close> of a one-byte character.\<close>

definition fromCharCode :: "byte \<Rightarrow> char" where
  "fromCharCode b = char_of (unat b)"

definition charCodeAt :: "char \<Rightarrow> int" where
  "charCodeAt c = of_char c"

text \<open>\<open>buffer.toString('ascii', start, end)\<close>: the high bit of every byte is dropped.\<close>

definition toString_ascii :: "byte list \<Rightarrow> int \<Rightarrow> int \<Rightarrow> string" where
  "toString_ascii buf s e = map (\<lambda>b. fromCharCode (b AND 0x7F)) (slice buf s e)"

definition toUpperCase_char :: "char \<Rightarrow> char" where
  "toUpperCase_char c =
     (let n = (of_char c :: nat) in if 97 \<le> n \<and> n \<le> 122 then char_of (n - 32) else c)"

definition toUpperCase :: "string \<Rightarrow> string" where
  "toUpperCase s = map toUpperCase_char s"

text \<open>\<open>n.toString(16)\<close> for a non-negative integer, lower-case digits.\<close>

definition hex_digit :: "nat \<Rightarrow> char" where
  "hex_digit d = (if d < 10 then char_of (48 + d) else char_of (87 + d))"

fun toString16 :: "nat \<Rightarrow> string" where
  "toString16 n = (if n < 16 then [hex_digit n] else toString16 (n div 16) @ [hex_digit (n mod 16)])"

declare toString16.simps [simp del]

definition padStart :: "nat \<Rightarrow> char \<Rightarrow> string \<Rightarrow> string" where
  "padStart n c s = replicate (n - length s) c @ s"

section \<open>MUP1 frame codec\<close>

definition SOF :: byte where "SOF = 0x3E"
definition EOF :: byte where "EOF = 0x3C"
definition ESCAPE :: byte where "ESCAPE = 0x5C"

definition COMMANDS :: "(string \<times> byte) list" where
  "COMMANDS = [(''ANNOUNCEMENT'', 0x41), (''COAP'', 0x43), (''PING'', 0x50),
               (''TRACE'', 0x54), (''SYSTEM'', 0x53)]"

definition ESCAPE_MAP :: "byte \<rightharpoonup> byte" where
  "ESCAPE_MAP = [0x00 \<mapsto> 0x30, 0xFF \<mapsto> 0x46, 0x3E \<mapsto> 0x3E, 0x3C \<mapsto> 0x3C, 0x5C \<mapsto> 0x5C]"

definition UNESCAPE_MAP :: "byte \<rightharpoonup> byte" where
  "UNESCAPE_MAP = [0x30 \<mapsto> 0x00, 0x46 \<mapsto> 0xFF, 0x3E \<mapsto> 0x3E, 0x3C \<mapsto> 0x3C, 0x5C \<mapsto> 0x5C]"

definition needsEscape :: "byte \<Rightarrow> bool" where
  "needsEscape b \<longleftrightarrow> b = 0x00 \<or> b = 0xFF \<or> b = 0x3E \<or> b = 0x3C \<or> b = 0x5C"

subsection \<open>calculateChecksum\<close>

text \<open>The summing loop, two bytes per round, with the running sum as accumulator.\<close>

fun sum_words :: "int \<Rightarrow> byte list \<Rightarrow> int" where
  "sum_words s [] = s"
| "sum_words s [a] = s + js_shl (uint a) 8"
| "sum_words s (a # b # r) = sum_words (s + js_or (js_shl (uint a) 8) (uint b)) r"

text \<open>\<open>while (sum >> 16) sum = (sum & 0xFFFF) + (sum >> 16)\<close>.\<close>

function fold_carry :: "int \<Rightarrow> int" where
  "fold_carry s = (if js_sar s 16 \<noteq> 0 then fold_carry (js_and s 0xFFFF + js_sar s 16) else s)"
  by pat_completeness auto

lemma ToInt32_range: "- 2147483648 \<le> ToInt32 x \<and> ToInt32 x < 2147483648"
  using signed_take_bit_int_greater_eq_minus_exp [of 31 x] signed_take_bit_int_less_exp [of 31 x]
  by (simp add: ToInt32_def)

lemma ToInt32_id: "- 2147483648 \<le> x \<Longrightarrow> x < 2147483648 \<Longrightarrow> ToInt32 x = x"
  unfolding ToInt32_def by (rule signed_take_bit_int_eq_self) simp_all

lemma js_sar_16: "js_sar s 16 = ToInt32 s div 65536"
  by (simp add: js_sar_def drop_bit_eq_div)

lemma js_and_FFFF: "js_and s 0xFFFF = ToInt32 s mod 65536"
proof -
  have "ToInt32 s AND 65535 = take_bit 16 (ToInt32 s)"
    by (simp add: take_bit_eq_mask mask_eq_exp_minus_1)
  then show ?thesis
    by (simp add: js_and_def ToInt32_id take_bit_eq_mod)
qed

text \<open>The loop ends: a sum of at least \<open>2 ^ 16\<close> shrinks, and a sum that ToInt32 reads as
  negative becomes a 16-bit value after at most two rounds.\<close>

definition fold_measure :: "int \<Rightarrow> nat" where
  "fold_measure s = (let t = ToInt32 s in
      if 0 \<le> t then nat t else if - 32768 \<le> t then 131072 else 262144)"

lemma fold_step_decreases:
  assumes "js_sar s 16 \<noteq> 0"
  shows "fold_measure (js_and s 0xFFFF + js_sar s 16) < fold_measure s"
proof -
  define t where "t = ToInt32 s"
  have r: "- 2147483648 \<le> t" "t < 2147483648" using ToInt32_range [of s] by (simp_all add: t_def)
  have nz: "t div 65536 \<noteq> 0" using assms by (simp add: js_sar_16 t_def)
  define n where "n = t mod 65536 + t div 65536"
  have n: "js_and s 0xFFFF + js_sar s 16 = n" by (simp add: js_and_FFFF js_sar_16 t_def n_def)
  have m: "0 \<le> t mod 65536" "t mod 65536 < 65536" by simp_all
  have dm: "t = 65536 * (t div 65536) + t mod 65536" by simp
  have nr: "- 2147483648 \<le> n" "n < 2147483648" using r m unfolding n_def by linarith+
  have tn: "ToInt32 n = n" using nr by (rule ToInt32_id)
  show ?thesis
  proof (cases "0 \<le> t")
    case True
    then have "65536 \<le> t" using nz by (cases "t < 65536") simp_all
    then have "1 \<le> t div 65536" by linarith
    then have "0 \<le> n" "n < t" unfolding n_def using m dm by linarith+
    then show ?thesis using True by (simp add: n fold_measure_def tn t_def [symmetric] Let_def)
  next
    case False
    show ?thesis
    proof (cases "- 32768 \<le> t")
      case True
      then have "t div 65536 = - 1" using False by linarith
      then have "0 \<le> n" "n < 131072" unfolding n_def using dm True False by linarith+
      then show ?thesis using True False by (simp add: n fold_measure_def tn t_def [symmetric] Let_def)
    next
      case F2: False
      have "t div 65536 \<le> - 1" "- 32768 \<le> t div 65536" using r F2 by linarith+
      then have "- 32768 \<le> n" "n < 65536" unfolding n_def using m by linarith+
      then show ?thesis using F2 False by (auto simp add: n fold_measure_def tn t_def [symmetric] Let_def)
    qed
  qed
qed

termination fold_carry
  by (relation "measure fold_measure") (simp_all add: fold_step_decreases)

declare fold_carry.simps [simp del]

definition calculateChecksum :: "byte list \<Rightarrow> int" where
  "calculateChecksum data = js_and (js_not (fold_carry (sum_words 0 data))) 0xFFFF"

subsection \<open>encodeFrame\<close>

text \<open>One payload byte of the escaping loop. \<open>ESCAPE_MAP\<close> has an entry for every byte
  that \<open>needsEscape\<close> accepts; a missing entry would be \<open>undefined\<close>, which
  \<open>Buffer.from\<close> stores as 0.\<close>

definition escape_byte :: "byte \<Rightarrow> byte list" where
  "escape_byte b =
     (if needsEscape b then [ESCAPE, (case ESCAPE_MAP b of Some e \<Rightarrow> e | None \<Rightarrow> 0)] else [b])"

text \<open>\<open>checksum.toString(16).toUpperCase().padStart(4, '0')\<close>.\<close>

definition checksumStr :: "int \<Rightarrow> string" where
  "checksumStr c = padStart 4 (CHR ''0'') (toUpperCase (toString16 (nat c)))"

definition encodeFrame :: "byte \<Rightarrow> byte list \<Rightarrow> byte list" where
  "encodeFrame type data =
     (let frame = [SOF, type] @ concat (map escape_byte data) @ [EOF];
          frame = (if length frame mod 2 = 0 then frame @ [EOF] else frame);
          checksum = calculateChecksum frame
      in frame @ Buffer_from (map charCodeAt (checksumStr checksum)))"

definition createCoapFrame :: "byte list \<Rightarrow> byte list" where
  "createCoapFrame coapMessage = encodeFrame 0x43 coapMessage"

definition createPing :: "byte list" where
  "createPing = encodeFrame 0x50 []"

subsection \<open>decodeFrame\<close>

datatype frame_error = FrameTooShort | InvalidSOF

record decoded_frame =
  frame_type :: char
  frame_data :: "byte list"
  frame_checksum :: string
  frame_valid :: bool

text \<open>The payload loop of \<open>decodeFrame\<close>, run over the bytes at the indices
  \<open>2 \<le> i < buffer.length - 4\<close>; \<open>escaping\<close> and \<open>data\<close> are the loop's variables.
  The test for the end-of-frame byte comes first, as in the source.\<close>

fun decode_loop :: "byte list \<Rightarrow> bool \<Rightarrow> byte list \<Rightarrow> byte list" where
  "decode_loop [] escaping data = data"
| "decode_loop (b # bs) escaping data =
     (if b = EOF then data
      else if escaping then
        decode_loop bs False (data @ [case UNESCAPE_MAP b of Some u \<Rightarrow> u | None \<Rightarrow> b])
      else if b = ESCAPE then decode_loop bs True data
      else decode_loop bs False (data @ [b]))"

definition decodeFrame :: "byte list \<Rightarrow> frame_error + decoded_frame" where
  "decodeFrame buffer =
     (if length buffer < 8 then Inl FrameTooShort
      else if buf_at buffer 0 \<noteq> Some SOF then Inl InvalidSOF
      else
        let type = buffer ! 1;
            data = decode_loop (take (length buffer - 4 - 2) (drop 2 buffer)) False [];
            frameEnd = indexOf buffer EOF 2;
            doubleEof = (buf_at buffer (frameEnd + 1) = Some EOF);
            checksumStart = (if doubleEof then frameEnd + 2 else frameEnd + 1);
            providedChecksum = toUpperCase (toString_ascii buffer checksumStart (checksumStart + 4));
            frameForChecksum = slice buffer 0 (frameEnd + (if doubleEof then 2 else 1));
            calculatedChecksum = checksumStr (calculateChecksum frameForChecksum)
        in Inr \<lparr>frame_type = fromCharCode type, frame_data = data,
                frame_checksum = providedChecksum,
                frame_valid = (providedChecksum = calculatedChecksum)\<rparr>)"

section \<open>CoAP client\<close>

text \<open>Strings are lists of 8-bit characters, so \<open>charCodeAt\<close> stays below 256 (URIs in
  Latin-1). \<open>str.split(sep)\<close> with a one-character separator:\<close>

fun js_split :: "char \<Rightarrow> string \<Rightarrow> string list" where
  "js_split c [] = [[]]"
| "js_split c (x # xs) =
     (if x = c then [] # js_split c xs
      else (case js_split c xs of [] \<Rightarrow> [[x]] | w # ws \<Rightarrow> (x # w) # ws))"

text \<open>\<open>String(n)\<close> for a non-negative integer.\<close>

fun toString10 :: "nat \<Rightarrow> string" where
  "toString10 n = (if n < 10 then [char_of (48 + n)] else toString10 (n div 10) @ [char_of (48 + n mod 10)])"

declare toString10.simps [simp del]

definition METHODS :: "string \<rightharpoonup> int" where
  "METHODS = [''GET'' \<mapsto> 1, ''POST'' \<mapsto> 2, ''PUT'' \<mapsto> 3, ''DELETE'' \<mapsto> 4,
              ''FETCH'' \<mapsto> 5, ''PATCH'' \<mapsto> 6, ''IPATCH'' \<mapsto> 7]"

definition RESPONSE_CODES :: "int \<rightharpoonup> string" where
  "RESPONSE_CODES = map_of
     [(65, ''2.01 Created''), (66, ''2.02 Deleted''), (67, ''2.03 Valid''),
      (68, ''2.04 Changed''), (69, ''2.05 Content''), (95, ''2.31 Continue''),
      (128, ''4.00 Bad Request''), (129, ''4.01 Unauthorized''), (130, ''4.02 Bad Option''),
      (131, ''4.03 Forbidden''), (132, ''4.04 Not Found''), (133, ''4.05 Method Not Allowed''),
      (134, ''4.06 Not Acceptable''), (140, ''4.12 Precondition Failed''),
      (141, ''4.13 Request Entity Too Large''), (143, ''4.15 Unsupported Content-Format''),
      (160, ''5.00 Internal Server Error''), (161, ''5.01 Not Implemented''),
      (162, ''5.02 Bad Gateway''), (163, ''5.03 Service Unavailable''),
      (164, ''5.04 Gateway Timeout''), (165, ''5.05 Proxying Not Supported'')]"

definition URI_PATH :: int where "URI_PATH = 11"
definition CONTENT_FORMAT :: int where "CONTENT_FORMAT = 12"
definition URI_QUERY :: int where "URI_QUERY = 15"
definition CONTENT_FORMAT_YANG_CBOR :: int where "CONTENT_FORMAT_YANG_CBOR = 260"

subsection \<open>Building a request\<close>

definition encodeOptionHeader :: "int \<Rightarrow> int \<Rightarrow> int list" where
  "encodeOptionHeader delta len =
     (let deltaValue = (if delta < 13 then delta else if delta < 269 then 13 else 14);
          deltaExt = (if delta < 13 then 0 else if delta < 269 then delta - 13 else delta - 269);
          lengthValue = (if len < 13 then len else if len < 269 then 13 else 14);
          lengthExt = (if len < 13 then 0 else if len < 269 then len - 13 else len - 269)
      in [js_or (js_shl deltaValue 4) lengthValue]
         @ (if 13 \<le> delta \<and> delta < 269 then [deltaExt]
            else if 269 \<le> delta then [js_and (js_sar deltaExt 8) 0xFF, js_and deltaExt 0xFF]
            else [])
         @ (if 13 \<le> len \<and> len < 269 then [lengthExt]
            else if 269 \<le> len then [js_and (js_sar lengthExt 8) 0xFF, js_and lengthExt 0xFF]
            else []))"

text \<open>The two option loops of \<open>encodeOptions\<close>; the state is the array \<open>options\<close> and
  \<open>prevOptionNum\<close>.\<close>

fun path_loop :: "string list \<Rightarrow> int list \<times> int \<Rightarrow> int list \<times> int" where
  "path_loop [] st = st"
| "path_loop (segment # segments) (options, prevOptionNum) =
     path_loop segments
       (options @ encodeOptionHeader (URI_PATH - prevOptionNum) (int (length segment))
                @ map charCodeAt segment,
        URI_PATH)"

fun query_loop :: "string list \<Rightarrow> int list \<times> int \<Rightarrow> int list \<times> int" where
  "query_loop [] st = st"
| "query_loop (query # queries) (options, prevOptionNum) =
     query_loop queries
       (options @ encodeOptionHeader (URI_QUERY - prevOptionNum) (int (length query))
                @ map charCodeAt query,
        URI_QUERY)"

text \<open>\<open>const [pathPart, queryPart] = uri.split('?')\<close> takes the first two pieces; a
  missing second piece is \<open>undefined\<close>, and \<open>if (queryPart)\<close> also rejects the empty
  string.\<close>

definition encodeOptions :: "string \<Rightarrow> int list" where
  "encodeOptions uri =
     (let parts = js_split (CHR ''?'') uri;
          pathPart = (case parts of [] \<Rightarrow> [] | p # _ \<Rightarrow> p);
          queryPart = (case parts of _ # q # _ \<Rightarrow> Some q | _ \<Rightarrow> None);
          segments = filter (\<lambda>s. s \<noteq> []) (js_split (CHR ''/'') pathPart);
          (options, prevOptionNum) = path_loop segments ([], 0);
          cfDelta = CONTENT_FORMAT - prevOptionNum;
          options = options @ encodeOptionHeader cfDelta 2 @ [0x01, 0x04];
          prevOptionNum = CONTENT_FORMAT
      in (case queryPart of
            None \<Rightarrow> options
          | Some q \<Rightarrow>
              if q = [] then options
              else fst (query_loop (filter (\<lambda>s. s \<noteq> []) (js_split (CHR ''&'') q))
                          (options, prevOptionNum))))"

text \<open>The payload of a request: \<open>null\<close>, a Buffer, or a value handed to the CBOR
  library. The library is outside the repository: \<open>cborEncode\<close> is a parameter.\<close>

datatype 'v request_payload = NoPayload | BufferPayload "byte list" | ValuePayload 'v

definition buildMessage ::
  "('v \<Rightarrow> byte list) \<Rightarrow> int \<Rightarrow> string \<Rightarrow> 'v request_payload \<Rightarrow> int \<Rightarrow> byte list" where
  "buildMessage cborEncode methodCode uri payload mid =
     (let version = 1; type = 0; tokenLength = 0;
          message = [js_or (js_or (js_shl version 6) (js_shl type 4)) tokenLength,
                     methodCode,
                     js_and (js_sar mid 8) 0xFF,
                     js_and mid 0xFF]
                    @ encodeOptions uri
                    @ (case payload of
                         NoPayload \<Rightarrow> []
                       | BufferPayload encoded \<Rightarrow> 0xFF # map uint encoded
                       | ValuePayload v \<Rightarrow> 0xFF # map uint (cborEncode v))
      in Buffer_from message)"

subsection \<open>Parsing a response\<close>

datatype coap_error = MessageTooShort

text \<open>The payload of a response: \<open>null\<close>, the value decoded by the CBOR library, or the
  raw bytes when the library throws (\<open>cborDecode\<close> returns \<open>None\<close>).\<close>

datatype 'v response_payload = Null | Decoded 'v | RawBytes "byte list"

record 'v coap_response =
  resp_version :: int
  resp_type :: int
  resp_code :: int
  resp_messageId :: int
  resp_payload :: "'v response_payload"
  resp_codeClass :: int
  resp_codeName :: string

definition parseResponse ::
  "(byte list \<Rightarrow> 'v option) \<Rightarrow> byte list \<Rightarrow> coap_error + 'v coap_response" where
  "parseResponse cborDecode buf =
     (if length buf < 4 then Inl MessageTooShort
      else
        let version = js_and (js_sar (uint (buf ! 0)) 6) 0x03;
            type = js_and (js_sar (uint (buf ! 0)) 4) 0x03;
            tokenLength = js_and (uint (buf ! 0)) 0x0F;
            code = uint (buf ! 1);
            mid = js_or (js_shl (uint (buf ! 2)) 8) (uint (buf ! 3));
            offset = 4 + tokenLength;
            marker = indexOf buf 0xFF (nat offset);
            payloadStart = (if marker = - 1 then int (length buf) else marker + 1);
            payload = (if payloadStart < int (length buf) then
                         (let payloadData = slice_from buf payloadStart in
                          case cborDecode payloadData of
                            Some v \<Rightarrow> Decoded v
                          | None \<Rightarrow> RawBytes payloadData)
                       else Null);
            fallback = toString10 (nat (code div 32)) @ ''.''
                       @ padStart 2 (CHR ''0'') (toString10 (nat (code mod 32)))
        in Inr \<lparr>resp_version = version, resp_type = type, resp_code = code,
                resp_messageId = mid, resp_payload = payload,
                resp_codeClass = code div 32,
                resp_codeName = (case RESPONSE_CODES code of
                                   Some name \<Rightarrow> if name = [] then fallback else name
                                 | None \<Rightarrow> fallback)\<rparr>)"

subsection \<open>Client state\<close>

text \<open>
  The state of one \<open>CoAPClient\<close>. Every call of \<open>request\<close> creates one promise and arms
  one timer; both are named by the number of the call (\<open>c_promises\<close> counts them), and
  \<open>c_timers\<close> holds the timers that are armed. What the client does to the outside (serial
  writes, settled promises, log lines) is appended to \<open>c_events\<close>. The fields carry the
  prefix \<open>c_\<close> (\<open>p_\<close> for a pending entry) to keep them apart from the parameters of the
  same name.
\<close>

record pending_request =
  p_promise :: nat
  p_timeout :: nat
  p_method :: string
  p_uri :: string
  p_sentAt :: int

datatype 'v rejection =
    CoapError string int "'v response_payload"
  | RequestTimeout string string

datatype client_error = UnknownMethod string

datatype 'v event =
    SerialWrite "byte list"
  | Resolved nat "'v response_payload"
  | Rejected nat "'v rejection"
  | LogResponse string int
  | WarnUnknownMessageId int
  | ResponseParseError coap_error
  | FrameDecodeError frame_error
  | Announcement "byte list"
  | Trace "byte list"

record 'v client =
  c_messageId :: int
  c_pendingRequests :: "int \<rightharpoonup> pending_request"
  c_receiveBuffer :: "byte list"
  c_timers :: "nat set"
  c_promises :: nat
  c_events :: "'v event list"

text \<open>The constructor; \<open>r\<close> is the value of \<open>Math.random()\<close>, a number in \<open>[0, 1)\<close>.\<close>

definition new_client :: "real \<Rightarrow> 'v client" where
  "new_client r =
     \<lparr>c_messageId = \<lfloor>r * 0xFFFF\<rfloor>, c_pendingRequests = Map.empty, c_receiveBuffer = [],
      c_timers = {}, c_promises = 0, c_events = []\<rparr>"

subsection \<open>request\<close>

text \<open>\<open>request\<close> returns the promise (its number) or throws \<open>Unknown CoAP method\<close>; the
  message-ID counter has moved on in both cases.\<close>

text \<open>\<open>const mid = this.messageId++; if (this.messageId > 0xFFFF) this.messageId = 1;\<close>\<close>

definition next_mid :: "'v client \<Rightarrow> int \<times> 'v client" where
  "next_mid st =
     (let mid = c_messageId st;
          st = st\<lparr>c_messageId := c_messageId st + 1\<rparr>;
          st = (if c_messageId st > 0xFFFF then st\<lparr>c_messageId := 1\<rparr> else st)
      in (mid, st))"

definition request ::
  "('v \<Rightarrow> byte list) \<Rightarrow> string \<Rightarrow> string \<Rightarrow> 'v request_payload \<Rightarrow> int \<Rightarrow> 'v client
     \<Rightarrow> (client_error + nat) \<times> 'v client" where
  "request cborEncode method uri payload now st =
     (let (mid, st) = next_mid st
      in case METHODS (toUpperCase method) of
           None \<Rightarrow> (Inl (UnknownMethod method), st)
         | Some methodCode \<Rightarrow>
             let message = buildMessage cborEncode methodCode uri payload mid;
                 frame = createCoapFrame message;
                 p = c_promises st;
                 st = st\<lparr>c_promises := p + 1,
                         c_timers := insert p (c_timers st),
                         c_pendingRequests := (c_pendingRequests st)
                           (mid \<mapsto> \<lparr>p_promise = p, p_timeout = p, p_method = method,
                                    p_uri = uri, p_sentAt = now\<rparr>)\<rparr>;
                 st = st\<lparr>c_events := c_events st @ [SerialWrite frame]\<rparr>
             in (Inr p, st))"

text \<open>The timer callback of the request with promise \<open>p\<close> and message-ID \<open>mid\<close>.\<close>

definition timer_fires :: "nat \<Rightarrow> int \<Rightarrow> string \<Rightarrow> string \<Rightarrow> 'v client \<Rightarrow> 'v client" where
  "timer_fires p mid method uri st =
     (if p \<notin> c_timers st then st
      else
        let st = st\<lparr>c_timers := c_timers st - {p}\<rparr>
        in if c_pendingRequests st mid \<noteq> None then
             st\<lparr>c_pendingRequests := (c_pendingRequests st)(mid := None),
                c_events := c_events st @ [Rejected p (RequestTimeout method uri)]\<rparr>
           else st)"

subsection \<open>handleCoapResponse\<close>

definition handleCoapResponse ::
  "(byte list \<Rightarrow> 'v option) \<Rightarrow> byte list \<Rightarrow> 'v client \<Rightarrow> 'v client" where
  "handleCoapResponse cborDecode buf st =
     (case parseResponse cborDecode buf of
        Inl e \<Rightarrow> st\<lparr>c_events := c_events st @ [ResponseParseError e]\<rparr>
      | Inr response \<Rightarrow>
          (case c_pendingRequests st (resp_messageId response) of
             Some pending \<Rightarrow>
               let st = st\<lparr>c_timers := c_timers st - {p_timeout pending}\<rparr>;
                   st = st\<lparr>c_pendingRequests :=
                              (c_pendingRequests st)(resp_messageId response := None)\<rparr>;
                   st = st\<lparr>c_events := c_events st
                              @ [LogResponse (resp_codeName response) (resp_messageId response)]\<rparr>
               in if resp_codeClass response = 2 then
                    st\<lparr>c_events := c_events st
                          @ [Resolved (p_promise pending) (resp_payload response)]\<rparr>
                  else
                    st\<lparr>c_events := c_events st
                          @ [Rejected (p_promise pending)
                               (CoapError (resp_codeName response) (resp_code response)
                                  (resp_payload response))]\<rparr>
           | None \<Rightarrow>
               st\<lparr>c_events := c_events st @ [WarnUnknownMessageId (resp_messageId response)]\<rparr>))"

subsection \<open>handleData\<close>

text \<open>
  One round of the \<open>while\<close> loop of \<open>handleData\<close> up to the point where a complete frame
  is cut off the receive buffer: either the loop is left (\<open>Wait\<close>, with the buffer it
  leaves behind) or a frame is extracted (\<open>Frame\<close>, with the frame and the rest).
\<close>

datatype extraction = Wait "byte list" | Frame "byte list" "byte list"

definition next_frame :: "byte list \<Rightarrow> extraction" where
  "next_frame receiveBuffer =
     (if \<not> length receiveBuffer > 0 then Wait receiveBuffer
      else
        let sofIndex = indexOf receiveBuffer SOF 0 in
        if sofIndex = - 1 then Wait []
        else
          let receiveBuffer = (if sofIndex > 0 then slice_from receiveBuffer sofIndex
                               else receiveBuffer) in
          if length receiveBuffer < 8 then Wait receiveBuffer
          else
            let eofIndex = indexOf receiveBuffer EOF 2 in
            if eofIndex = - 1 then Wait receiveBuffer
            else
              let hasDoubleEof = (buf_at receiveBuffer (eofIndex + 1) = Some EOF);
                  checksumStart = (if hasDoubleEof then eofIndex + 2 else eofIndex + 1);
                  frameEnd = checksumStart + 4
              in if int (length receiveBuffer) < frameEnd then Wait receiveBuffer
                 else Frame (slice receiveBuffer 0 frameEnd) (slice_from receiveBuffer frameEnd))"

text \<open>The \<open>try\<close> block of the loop: decode the frame and dispatch on its type.\<close>

definition dispatch ::
  "(byte list \<Rightarrow> 'v option) \<Rightarrow> byte list \<Rightarrow> 'v client \<Rightarrow> 'v client" where
  "dispatch cborDecode frameData st =
     (case decodeFrame frameData of
        Inl e \<Rightarrow> st\<lparr>c_events := c_events st @ [FrameDecodeError e]\<rparr>
      | Inr decoded \<Rightarrow>
          if frame_type decoded = CHR ''C'' then handleCoapResponse cborDecode (frame_data decoded) st
          else if frame_type decoded = CHR ''A'' then
            st\<lparr>c_events := c_events st @ [Announcement (frame_data decoded)]\<rparr>
          else if frame_type decoded = CHR ''T'' then
            st\<lparr>c_events := c_events st @ [Trace (frame_data decoded)]\<rparr>
          else st)"

function handle_loop :: "(byte list \<Rightarrow> 'v option) \<Rightarrow> 'v client \<Rightarrow> 'v client" where
  "handle_loop cborDecode st =
     (case next_frame (c_receiveBuffer st) of
        Wait receiveBuffer \<Rightarrow> st\<lparr>c_receiveBuffer := receiveBuffer\<rparr>
      | Frame frameData receiveBuffer \<Rightarrow>
          handle_loop cborDecode (dispatch cborDecode frameData (st\<lparr>c_receiveBuffer := receiveBuffer\<rparr>)))"
  by pat_completeness auto

lemma index_from_range:
  "index_from v i bs = - 1 \<or> (int i \<le> index_from v i bs \<and> index_from v i bs < int (i + length bs))"
proof (induction bs arbitrary: i)
  case Nil
  show ?case by simp
next
  case (Cons b bs)
  show ?case using Cons [of "Suc i"] by auto
qed

lemma indexOf_range: "indexOf buf v from = - 1 \<or> (int from \<le> indexOf buf v from \<and> indexOf buf v from < int (length buf))"
  using index_from_range [of v "from" "drop from buf"] by (auto simp: indexOf_def)

lemma next_frame_shrinks: "next_frame buf = Frame f rest \<Longrightarrow> length rest < length buf"
  using indexOf_range [of buf SOF 0]
        indexOf_range [of "slice_from buf (indexOf buf SOF 0)" EOF 2] indexOf_range [of buf EOF 2]
  by (auto simp: next_frame_def Let_def slice_from_def split: if_splits)

lemma handleCoapResponse_buffer [simp]:
  "c_receiveBuffer (handleCoapResponse cborDecode buf st) = c_receiveBuffer st"
  by (simp add: handleCoapResponse_def Let_def split: sum.splits option.splits)

lemma dispatch_buffer [simp]:
  "c_receiveBuffer (dispatch cborDecode frameData st) = c_receiveBuffer st"
  by (simp add: dispatch_def split: sum.splits)

termination handle_loop
  by (relation "measure (\<lambda>(d, st). length (c_receiveBuffer st))")
     (simp_all add: next_frame_shrinks)

declare handle_loop.simps [simp del]

definition handleData ::
  "(byte list \<Rightarrow> 'v option) \<Rightarrow> byte list \<Rightarrow> 'v client \<Rightarrow> 'v client" where
  "handleData cborDecode chunk st =
     handle_loop cborDecode (st\<lparr>c_receiveBuffer := c_receiveBuffer st @ chunk\<rparr>)"

section \<open>Properties\<close>

text \<open>Stand-ins for the CBOR library in closed statements: a decoder that always throws and
  an encoder that returns no bytes.\<close>

definition cbor_decode_fails :: "byte list \<Rightarrow> unit option" where
  "cbor_decode_fails payloadData = None"

definition cbor_encode_empty :: "unit \<Rightarrow> byte list" where
  "cbor_encode_empty v = []"

text \<open>The "C.DD" form of a response code: class digit, a dot, two detail digits.\<close>

definition dotted_code :: "int \<Rightarrow> string" where
  "dotted_code code =
     [char_of (48 + nat (code div 32)), CHR ''.'',
      char_of (48 + nat (code mod 32 div 10)), char_of (48 + nat (code mod 32 mod 10))]"

section \<open>Evaluation on concrete inputs\<close>

text \<open>Rule sets that evaluate the definitions above on literal arguments.\<close>

lemmas js_defs = js_and_def js_not_def js_or_def js_shl_def js_sar_def ToInt32_def

lemmas str_defs = hex_digit_def char_of_def toUpperCase_def toUpperCase_char_def padStart_def
  fromCharCode_def charCodeAt_def toString_ascii_def bit_0

lemmas buf_defs = Buffer_from_def buf_at_def indexOf_def slice_def slice_from_def

lemmas frame_defs = SOF_def EOF_def ESCAPE_def ESCAPE_MAP_def UNESCAPE_MAP_def needsEscape_def
  escape_byte_def encodeFrame_def decodeFrame_def createPing_def createCoapFrame_def

lemmas checksum_eval = calculateChecksum_def js_defs fold_carry.simps

lemmas checksumStr_eval = checksumStr_def toString16.simps str_defs

subsection \<open>Frame codec\<close>

lemma checksum_ping: "calculateChecksum [0x3E, 0x50, 0x3C] = 0x85AF"
  by (simp add: checksum_eval)

lemma checksumStr_ping: "checksumStr 0x85AF = ''85AF''"
  by (simp add: checksumStr_eval)

lemma checksum_trace: "calculateChecksum [0x3E, 0x54, 0x3C] = 0x85AB"
  by (simp add: checksum_eval)

lemma checksumStr_trace: "checksumStr 0x85AB = ''85AB''"
  by (simp add: checksumStr_eval)

lemma checksum_lt: "calculateChecksum [0x3E, 0x43, 0x5C, 0x3C, 0x3C] = 0x2980"
  by (simp add: checksum_eval)

lemma checksumStr_lt: "checksumStr 0x2980 = ''2980''"
  by (simp add: checksumStr_eval)

lemma checksum_alb: "calculateChecksum [0x3E, 0x43, 0x41, 0x5C, 0x3C, 0x42, 0x3C] = 0x081E"
  by (simp add: checksum_eval)

lemma checksumStr_alb: "checksumStr 0x081E = ''081E''"
  by (simp add: checksumStr_eval)

lemma checksum_cut: "calculateChecksum [0x3E, 0x43, 0x41, 0x5C, 0x3C] = 0x4460"
  by (simp add: checksum_eval)

lemma checksumStr_cut: "checksumStr 0x4460 = ''4460''"
  by (simp add: checksumStr_eval)

text \<open>
  C1 (frame round-trip). The claim asks that decoding an encoded frame gives back the
  type and the payload with a valid checksum, for every command type and payload. The
  code does not: the payload consisting of the byte 0x3C is escaped by the encoder as
  0x5C 0x3C, and the decoder stops at that 0x3C and returns the empty payload; the empty
  payload is encoded into seven bytes, which the decoder rejects as too short.
\<close>

theorem roundtrip_fails_on_code:
  "decodeFrame (encodeFrame 0x43 [0x3C]) =
     Inr \<lparr>frame_type = CHR ''C'', frame_data = [], frame_checksum = ''2980'', frame_valid = True\<rparr>
   \<and> decodeFrame (encodeFrame 0x54 []) = Inl FrameTooShort"
proof -
  have enc: "encodeFrame 0x43 [0x3C] = [0x3E, 0x43, 0x5C, 0x3C, 0x3C, 0x32, 0x39, 0x38, 0x30]"
    by (simp add: frame_defs buf_defs str_defs Let_def checksum_lt checksumStr_lt)
  have dec: "decodeFrame [0x3E, 0x43, 0x5C, 0x3C, 0x3C, 0x32, 0x39, 0x38, 0x30] =
     Inr \<lparr>frame_type = CHR ''C'', frame_data = [], frame_checksum = ''2980'', frame_valid = True\<rparr>"
    by (simp add: frame_defs buf_defs str_defs Let_def checksum_lt checksumStr_lt)
  have enc0: "encodeFrame 0x54 [] = [0x3E, 0x54, 0x3C, 0x38, 0x35, 0x41, 0x42]"
    by (simp add: frame_defs buf_defs str_defs Let_def checksum_trace checksumStr_trace)
  have dec0: "decodeFrame [0x3E, 0x54, 0x3C, 0x38, 0x35, 0x41, 0x42] = Inl FrameTooShort"
    by (simp add: decodeFrame_def)
  show ?thesis by (simp only: enc dec enc0 dec0)
qed

text \<open>
  C2 (escaped end-of-frame byte). The claim asks that the byte pair 0x5C 0x3C inside the
  payload region is decoded as the payload byte 0x3C and that only an unescaped 0x3C ends
  the payload. In the code the test for 0x3C comes before the test of the escape flag:
  the frame that encodes the payload 0x41 0x3C 0x42 is decoded to the payload 0x41, the
  escaped 0x3C is taken as the end of the frame and the checksum is read from the wrong
  place.
\<close>

theorem escaped_eof_ends_payload:
  "encodeFrame 0x43 [0x41, 0x3C, 0x42] =
     [0x3E, 0x43, 0x41, 0x5C, 0x3C, 0x42, 0x3C, 0x30, 0x38, 0x31, 0x45]
   \<and> decodeFrame [0x3E, 0x43, 0x41, 0x5C, 0x3C, 0x42, 0x3C, 0x30, 0x38, 0x31, 0x45] =
     Inr \<lparr>frame_type = CHR ''C'', frame_data = [0x41], frame_checksum = ''B<08'',
          frame_valid = False\<rparr>"
proof -
  have enc: "encodeFrame 0x43 [0x41, 0x3C, 0x42] =
     [0x3E, 0x43, 0x41, 0x5C, 0x3C, 0x42, 0x3C, 0x30, 0x38, 0x31, 0x45]"
    by (simp add: frame_defs buf_defs str_defs Let_def checksum_alb checksumStr_alb)
  have dec: "decodeFrame [0x3E, 0x43, 0x41, 0x5C, 0x3C, 0x42, 0x3C, 0x30, 0x38, 0x31, 0x45] =
     Inr \<lparr>frame_type = CHR ''C'', frame_data = [0x41], frame_checksum = ''B<08'',
          frame_valid = False\<rparr>"
    by (simp add: frame_defs buf_defs str_defs Let_def checksum_cut checksumStr_cut)
  show ?thesis by (simp only: enc dec)
qed

text \<open>
  C3 (empty ping frame). The claim asks that the ping frame with the empty payload is
  0x3E 0x50 0x3C 0x3C followed by four checksum characters and that it decodes to type P
  with empty payload and valid checksum. The code writes the second 0x3C only when the
  length after the first one is even; for the empty payload that length is 3, so the frame
  is 0x3E 0x50 0x3C followed by "85AF", seven bytes, and the decoder rejects it.
\<close>

theorem ping_frame_on_code:
  "encodeFrame 0x50 [] = [0x3E, 0x50, 0x3C, 0x38, 0x35, 0x41, 0x46]
   \<and> createPing = encodeFrame 0x50 []
   \<and> decodeFrame (encodeFrame 0x50 []) = Inl FrameTooShort"
proof -
  have enc: "encodeFrame 0x50 [] = [0x3E, 0x50, 0x3C, 0x38, 0x35, 0x41, 0x46]"
    by (simp add: frame_defs buf_defs str_defs Let_def checksum_ping checksumStr_ping)
  have dec: "decodeFrame [0x3E, 0x50, 0x3C, 0x38, 0x35, 0x41, 0x46] = Inl FrameTooShort"
    by (simp add: decodeFrame_def)
  show ?thesis by (simp add: enc dec createPing_def)
qed

subsection \<open>Response codes\<close>

lemma js_sar_5: "0 \<le> c \<Longrightarrow> c < 256 \<Longrightarrow> js_sar c 5 = c div 32"
  by (simp add: js_sar_def ToInt32_id drop_bit_eq_div)

lemma toString10_digit: "n < 10 \<Longrightarrow> toString10 n = [char_of (48 + n)]"
  by (simp add: toString10.simps)

lemma toString10_two: "10 \<le> n \<Longrightarrow> n < 100 \<Longrightarrow>
    toString10 n = [char_of (48 + n div 10), char_of (48 + n mod 10)]"
  by (subst toString10.simps) (simp add: toString10_digit)

lemma fallback_name:
  assumes "0 \<le> c" "c < 256"
  shows "toString10 (nat (c div 32)) @ ''.'' @ padStart 2 (CHR ''0'') (toString10 (nat (c mod 32)))
         = dotted_code c"
proof -
  define k where "k = nat (c div 32)"
  define m where "m = nat (c mod 32)"
  have k: "k < 10" using assms unfolding k_def by simp
  have m: "m < 32" unfolding m_def by simp
  have d: "nat (c mod 32 div 10) = m div 10" "nat (c mod 32 mod 10) = m mod 10"
    unfolding m_def by (simp_all add: nat_div_distrib nat_mod_distrib)
  have pad: "padStart 2 (CHR ''0'') (toString10 m) = [char_of (48 + m div 10), char_of (48 + m mod 10)]"
  proof (cases "m < 10")
    case True
    then show ?thesis by (simp add: toString10_digit padStart_def char_of_def bit_0)
  next
    case False
    then show ?thesis using m by (simp add: toString10_two padStart_def)
  qed
  show ?thesis
    unfolding dotted_code_def d k_def [symmetric] m_def [symmetric]
    by (simp add: toString10_digit k pad)
qed

lemma table_name:
  assumes "RESPONSE_CODES c = Some name"
  shows "name \<noteq> [] \<and> take 4 name = dotted_code c"
  using assms
  by (auto simp add: RESPONSE_CODES_def dotted_code_def char_of_def bit_0 split: if_splits)

text \<open>
  C9 as the claim states it: code 69 is parsed to the name "2.05". On the code the name
  of code 69 is the entry of \<open>RESPONSE_CODES\<close>, "2.05 Content".
\<close>

theorem codeName_69_counterexample:
  "parseResponse cbor_decode_fails [0x60, 0x45, 0x12, 0x34] =
     Inr \<lparr>resp_version = 1, resp_type = 2, resp_code = 69, resp_messageId = 0x1234,
          resp_payload = Null, resp_codeClass = 2, resp_codeName = ''2.05 Content''\<rparr>
   \<and> ''2.05 Content'' \<noteq> ''2.05''"
  by (simp add: parseResponse_def js_defs buf_defs RESPONSE_CODES_def Let_def)

text \<open>
  C9, amended: for every parsed response the code class is \<open>code >> 5\<close>; the code name
  is the entry of the table of the 22 known codes ("C.DD" followed by a description, as
  "2.05 Content" for 69 and "4.04 Not Found" for 132) and the bare "C.DD" string for every
  other code; in both cases its first four characters are the "C.DD" string of the code.
\<close>

theorem parseResponse_code_name:
  assumes "parseResponse cborDecode buf = Inr r"
  shows "resp_codeClass r = js_sar (resp_code r) 5
       \<and> resp_codeName r = (case RESPONSE_CODES (resp_code r) of
                               Some name \<Rightarrow> name | None \<Rightarrow> dotted_code (resp_code r))
       \<and> take 4 (resp_codeName r) = dotted_code (resp_code r)
       \<and> (resp_code r = 69 \<longrightarrow> resp_codeName r = ''2.05 Content'')
       \<and> (resp_code r = 132 \<longrightarrow> resp_codeName r = ''4.04 Not Found'')"
proof -
  define c where "c = uint (buf ! 1)"
  have c: "0 \<le> c" "c < 256"
    using uint_lt2p [of "buf ! 1"] by (simp_all add: c_def)
  define fallback where
    "fallback = toString10 (nat (c div 32)) @ ''.'' @ padStart 2 (CHR ''0'') (toString10 (nat (c mod 32)))"
  have fb: "fallback = dotted_code c" unfolding fallback_def using c by (rule fallback_name)
  from assms have len: "\<not> length buf < 4"
    by (auto simp: parseResponse_def split: if_splits)
  from assms len have code: "resp_code r = c" and cls: "resp_codeClass r = c div 32"
    and name: "resp_codeName r = (case RESPONSE_CODES c of
          Some name \<Rightarrow> if name = [] then fallback else name | None \<Rightarrow> fallback)"
    by (auto simp: parseResponse_def Let_def c_def fallback_def simp del: One_nat_def
          split: option.splits)
  have name': "resp_codeName r = (case RESPONSE_CODES c of Some name \<Rightarrow> name | None \<Rightarrow> dotted_code c)"
    unfolding name fb using table_name [of c] by (auto split: option.splits)
  have t4: "take 4 (resp_codeName r) = dotted_code c"
    unfolding name' using table_name [of c] by (auto split: option.splits simp: dotted_code_def)
  have e69: "c = 69 \<longrightarrow> resp_codeName r = ''2.05 Content''"
    unfolding name' by (simp add: RESPONSE_CODES_def)
  have e132: "c = 132 \<longrightarrow> resp_codeName r = ''4.04 Not Found''"
    unfolding name' by (simp add: RESPONSE_CODES_def)
  show ?thesis
    unfolding code using cls c name' t4 e69 e132 by (simp add: js_sar_5)
qed

theorem parseResponse_code_name_witness:
  "parseResponse cbor_decode_fails [0x60, 0x84, 0x12, 0x34, 0xFF, 0x01] =
        Inr \<lparr>resp_version = 1, resp_type = 2, resp_code = 132, resp_messageId = 0x1234,
             resp_payload = RawBytes [0x01], resp_codeClass = 4, resp_codeName = ''4.04 Not Found''\<rparr>
   \<and> js_sar 132 5 = 4
   \<and> take 4 ''4.04 Not Found'' = dotted_code 132
   \<and> parseResponse cbor_decode_fails [0x60, 0x45, 0x12, 0x34] =
        Inr \<lparr>resp_version = 1, resp_type = 2, resp_code = 69, resp_messageId = 0x1234,
             resp_payload = Null, resp_codeClass = 2, resp_codeName = ''2.05 Content''\<rparr>
   \<and> js_sar 69 5 = 2
   \<and> take 4 ''2.05 Content'' = dotted_code 69"
proof -
  have p: "parseResponse cbor_decode_fails [0x60, 0x84, 0x12, 0x34, 0xFF, 0x01] =
        Inr \<lparr>resp_version = 1, resp_type = 2, resp_code = 132, resp_messageId = 0x1234,
             resp_payload = RawBytes [0x01], resp_codeClass = 4, resp_codeName = ''4.04 Not Found''\<rparr>"
    by (simp add: parseResponse_def js_defs buf_defs RESPONSE_CODES_def Let_def cbor_decode_fails_def)
  have q: "parseResponse cbor_decode_fails [0x60, 0x45, 0x12, 0x34] =
        Inr \<lparr>resp_version = 1, resp_type = 2, resp_code = 69, resp_messageId = 0x1234,
             resp_payload = Null, resp_codeClass = 2, resp_codeName = ''2.05 Content''\<rparr>"
    by (simp add: parseResponse_def js_defs buf_defs RESPONSE_CODES_def Let_def)
  show ?thesis
    using parseResponse_code_name [OF p] parseResponse_code_name [OF q] p q by simp
qed

subsection \<open>Message-IDs\<close>

text \<open>The message-IDs taken by a sequence of requests: \<open>fst (next_mid st)\<close> is the
  \<open>mid\<close> of the request issued in state \<open>st\<close>.\<close>

fun request_mids ::
  "('v \<Rightarrow> byte list) \<Rightarrow> (string \<times> string \<times> 'v request_payload \<times> int) list \<Rightarrow> 'v client \<Rightarrow> int list" where
  "request_mids cborEncode [] st = []"
| "request_mids cborEncode ((method, uri, payload, now) # rs) st =
     fst (next_mid st) # request_mids cborEncode rs (snd (request cborEncode method uri payload now st))"

text \<open>The step of the counter: up by one, and from 0xFFFF to 1.\<close>

definition wrap_increment :: "int \<Rightarrow> int" where
  "wrap_increment c = (if c + 1 > 0xFFFF then 1 else c + 1)"

text \<open>A connection on which the request with message-ID 5 is still pending when the
  counter has come round to 5 again.\<close>

definition collision_state :: "unit client" where
  "collision_state =
     \<lparr>c_messageId = 5,
      c_pendingRequests = [5 \<mapsto> \<lparr>p_promise = 0, p_timeout = 0, p_method = ''GET'',
                                 p_uri = ''/c'', p_sentAt = 0\<rparr>],
      c_receiveBuffer = [], c_timers = {0}, c_promises = 1, c_events = []\<rparr>"

lemma next_mid_fst [simp]: "fst (next_mid st) = c_messageId st"
  by (simp add: next_mid_def Let_def)

lemma next_mid_counter [simp]: "c_messageId (snd (next_mid st)) = wrap_increment (c_messageId st)"
  by (simp add: next_mid_def Let_def wrap_increment_def)

lemma request_counter:
  "c_messageId (snd (request cborEncode method uri payload now st)) = wrap_increment (c_messageId st)"
  by (auto simp: request_def next_mid_def Let_def wrap_increment_def split: option.splits)

lemma wrap_increment_range:
  "0 \<le> c \<Longrightarrow> c \<le> 0xFFFF \<Longrightarrow> 1 \<le> wrap_increment c \<and> wrap_increment c \<le> 0xFFFF"
  by (simp add: wrap_increment_def)

lemma wrap_increment_funpow:
  "1 \<le> c \<Longrightarrow> c \<le> 0xFFFF \<Longrightarrow> (wrap_increment ^^ k) c = (c - 1 + int k) mod 65535 + 1"
proof (induction k)
  case 0
  then show ?case by simp
next
  case (Suc k)
  define x where "x = (c - 1 + int k) mod 65535"
  have x: "0 \<le> x" "x < 65535" by (simp_all add: x_def)
  have "(c - 1 + int (Suc k)) mod 65535 = (x + 1) mod 65535"
    unfolding x_def by (simp add: mod_add_left_eq add.assoc)
  also have "\<dots> = (if x = 65534 then 0 else x + 1)"
    using x by simp
  finally have "wrap_increment (x + 1) = (c - 1 + int (Suc k)) mod 65535 + 1"
    using x by (simp add: wrap_increment_def)
  with Suc show ?case by (simp add: x_def)
qed

lemma request_mids_length [simp]: "length (request_mids cborEncode rs st) = length rs"
  by (induction cborEncode rs st rule: request_mids.induct) simp_all

lemma request_mids_nth:
  "0 \<le> c_messageId st \<Longrightarrow> c_messageId st \<le> 0xFFFF \<Longrightarrow> k < length rs \<Longrightarrow>
   request_mids cborEncode rs st ! k = (wrap_increment ^^ k) (c_messageId st)"
proof (induction cborEncode rs st arbitrary: k rule: request_mids.induct)
  case (1 cborEncode st)
  then show ?case by simp
next
  case (2 cborEncode meth uri payload now rs st)
  show ?case
  proof (cases k)
    case 0
    then show ?thesis by simp
  next
    case (Suc j)
    let ?st' = "snd (request cborEncode meth uri payload now st)"
    have c': "c_messageId ?st' = wrap_increment (c_messageId st)"
      by (simp add: request_counter)
    have r: "0 \<le> c_messageId ?st'" "c_messageId ?st' \<le> 0xFFFF"
      using wrap_increment_range [of "c_messageId st"] "2.prems" unfolding c' by simp_all
    have "request_mids cborEncode rs ?st' ! j = (wrap_increment ^^ j) (c_messageId ?st')"
      using "2.prems" Suc by (intro "2.IH" r) simp
    then show ?thesis using Suc by (simp add: c' funpow_swap1)
  qed
qed

lemma mids_from_positive:
  assumes "1 \<le> c_messageId st" "c_messageId st \<le> 0xFFFF" "k < length rs"
  shows "request_mids cborEncode rs st ! k = (c_messageId st - 1 + int k) mod 65535 + 1"
  using assms by (simp add: request_mids_nth wrap_increment_funpow)

lemma mids_from_zero:
  assumes "c_messageId st = 0" "k < length rs"
  shows "request_mids cborEncode rs st ! k = (if k = 0 then 0 else (int k - 1) mod 65535 + 1)"
proof (cases k)
  case 0
  then show ?thesis using assms by (simp add: request_mids_nth)
next
  case (Suc j)
  have "(wrap_increment ^^ Suc j) 0 = (wrap_increment ^^ j) (wrap_increment 0)"
    by (simp add: funpow_swap1)
  also have "\<dots> = (1 - 1 + int j) mod 65535 + 1"
    by (simp add: wrap_increment_def wrap_increment_funpow)
  finally show ?thesis using assms Suc by (simp add: request_mids_nth)
qed

lemma mod_eq_close:
  fixes a b :: int
  assumes "a mod 65535 = b mod 65535" "a \<le> b" "b < a + 65535"
  shows "a = b"
proof -
  have "65535 dvd b - a" using assms(1) [symmetric] by (simp add: mod_eq_dvd_iff)
  then have "(b - a) mod 65535 = 0" by simp
  moreover have "0 \<le> b - a" "b - a < 65535" using assms by simp_all
  ultimately show ?thesis by simp
qed

lemma request_mids_distinct:
  assumes "0 \<le> c_messageId st" "c_messageId st \<le> 0xFFFF" "length rs \<le> 65535"
  shows "distinct (request_mids cborEncode rs st)"
proof -
  have "request_mids cborEncode rs st ! i \<noteq> request_mids cborEncode rs st ! j"
    if ij: "i < j" "j < length rs" for i j
  proof (cases "c_messageId st = 0")
    case True
    show ?thesis
    proof (cases "i = 0")
      case i0: True
      have "0 \<le> (int j - 1) mod 65535" by simp
      moreover have "0 < length rs" using ij by linarith
      then have "request_mids cborEncode rs st ! 0 = 0"
        using mids_from_zero [of st 0 rs cborEncode] True by simp
      moreover have "request_mids cborEncode rs st ! j = (int j - 1) mod 65535 + 1"
        using mids_from_zero [of st j rs cborEncode] ij True by simp
      ultimately show ?thesis using i0 \<open>request_mids cborEncode rs st ! 0 = 0\<close> by simp
    next
      case False
      have "(int i - 1) mod 65535 \<noteq> (int j - 1) mod 65535"
        using mod_eq_close [of "int i - 1" "int j - 1"] ij assms(3) by auto
      then show ?thesis using ij False True by (simp add: mids_from_zero)
    qed
  next
    case False
    then have pos: "1 \<le> c_messageId st" using assms(1) by simp
    have "(c_messageId st - 1 + int i) mod 65535 \<noteq> (c_messageId st - 1 + int j) mod 65535"
      using mod_eq_close [of "c_messageId st - 1 + int i" "c_messageId st - 1 + int j"] ij assms(3)
      by auto
    then show ?thesis using ij pos assms(2) by (simp add: mids_from_positive)
  qed
  then have "request_mids cborEncode rs st ! i \<noteq> request_mids cborEncode rs st ! j"
    if "i < length rs" "j < length rs" "i \<noteq> j" for i j
    using that by (cases "i < j") (force simp: not_less le_less)+
  then show ?thesis
    by (simp add: distinct_conv_nth)
qed
lemma request_mids_range:
  "1 \<le> c_messageId st \<Longrightarrow> c_messageId st \<le> 0xFFFF \<Longrightarrow>
   \<forall>m \<in> set (request_mids cborEncode rs st). 1 \<le> m \<and> m \<le> 0xFFFF"
proof (induction cborEncode rs st rule: request_mids.induct)
  case (1 cborEncode st)
  show ?case by simp
next
  case (2 cborEncode meth uri payload now rs st)
  let ?st' = "snd (request cborEncode meth uri payload now st)"
  have "1 \<le> c_messageId ?st' \<and> c_messageId ?st' \<le> 0xFFFF"
    unfolding request_counter using wrap_increment_range [of "c_messageId st"] "2.prems" by simp
  then show ?case using "2.IH" "2.prems" by simp
qed

lemma request_stores:
  assumes "request cborEncode method uri payload now st = (Inr p, st')"
  shows "c_pendingRequests st' = (c_pendingRequests st)
           (c_messageId st \<mapsto> \<lparr>p_promise = c_promises st, p_timeout = c_promises st,
                                p_method = method, p_uri = uri, p_sentAt = now\<rparr>)"
  using assms
  by (auto simp: request_def next_mid_def Let_def split: option.splits if_splits)

lemma request_writes:
  assumes "METHODS (toUpperCase method) = Some methodCode"
  shows "c_events (snd (request cborEncode method uri payload now st)) =
           c_events st @ [SerialWrite (createCoapFrame
             (buildMessage cborEncode methodCode uri payload (c_messageId st)))]"
  using assms by (simp add: request_def next_mid_def Let_def)

lemma new_client_counter:
  assumes "0 \<le> r" "r < 1"
  shows "0 \<le> c_messageId (new_client r :: 'v client)
       \<and> c_messageId (new_client r :: 'v client) \<le> 0xFFFE"
proof -
  have "r * 65535 < 65535" using assms by simp
  then have "\<lfloor>r * 65535\<rfloor> < 65535" by (simp add: floor_less_iff)
  moreover have "0 \<le> \<lfloor>r * 65535\<rfloor>" using assms by simp
  ultimately show ?thesis by (simp add: new_client_def)
qed

lemma METHODS_GET: "METHODS (toUpperCase ''GET'') = Some 1"
  by (simp add: METHODS_def str_defs)

text \<open>
  C7 as the claim states it: a message-ID that collides with a pending request is skipped,
  and the message-IDs of any number of sequential requests are pairwise distinct. On the
  code a request issued while message-ID 5 is pending and the counter stands at 5 takes
  message-ID 5 and replaces the pending entry; and of 65536 sequential requests the first
  and the last carry the same message-ID.
\<close>

theorem message_id_collision_counterexample:
  "c_pendingRequests collision_state 5 =
     Some \<lparr>p_promise = 0, p_timeout = 0, p_method = ''GET'', p_uri = ''/c'', p_sentAt = 0\<rparr>
   \<and> request_mids cbor_encode_empty [(''GET'', ''/c'', NoPayload, 7)] collision_state = [5]
   \<and> c_pendingRequests
         (snd (request cbor_encode_empty ''GET'' ''/c'' NoPayload 7 collision_state)) 5 =
     Some \<lparr>p_promise = 1, p_timeout = 1, p_method = ''GET'', p_uri = ''/c'', p_sentAt = 7\<rparr>
   \<and> request_mids cbor_encode_empty (replicate 65536 (''GET'', ''/c'', NoPayload, 7))
         collision_state ! 0 =
     request_mids cbor_encode_empty (replicate 65536 (''GET'', ''/c'', NoPayload, 7))
         collision_state ! 65535"
proof -
  have c: "c_messageId collision_state = 5" by (simp add: collision_state_def)
  have a: "c_pendingRequests collision_state 5 =
     Some \<lparr>p_promise = 0, p_timeout = 0, p_method = ''GET'', p_uri = ''/c'', p_sentAt = 0\<rparr>"
    by (simp add: collision_state_def)
  have b: "request_mids cbor_encode_empty [(''GET'', ''/c'', NoPayload, 7)] collision_state = [5]"
    by (simp add: c)
  obtain p st' where r: "request cbor_encode_empty ''GET'' ''/c'' NoPayload 7 collision_state = (Inr p, st')"
    by (cases "next_mid collision_state") (simp add: request_def METHODS_GET Let_def)
  have d: "c_pendingRequests
         (snd (request cbor_encode_empty ''GET'' ''/c'' NoPayload 7 collision_state)) 5 =
     Some \<lparr>p_promise = 1, p_timeout = 1, p_method = ''GET'', p_uri = ''/c'', p_sentAt = 7\<rparr>"
    using request_stores [OF r] unfolding r by (simp add: collision_state_def)
  let ?rs = "replicate 65536 (''GET'', ''/c'', NoPayload :: unit request_payload, 7 :: int)"
  have e0: "request_mids cbor_encode_empty ?rs collision_state ! 0 = 5"
    using mids_from_positive [of collision_state 0 ?rs cbor_encode_empty] by (simp add: c)
  have e1: "request_mids cbor_encode_empty ?rs collision_state ! 65535 = 5"
    using mids_from_positive [of collision_state 65535 ?rs cbor_encode_empty] by (simp add: c)
  show ?thesis using a b d e0 e1 by simp
qed

text \<open>
  C7, amended: the counter starts at a random integer in [0, 0xFFFE]; a request takes the
  value of the counter as its message-ID, whether or not a request with that ID is still
  pending (the entry of the pending map is written under it, and the frame sent carries
  it), and moves the counter up by one, from 0xFFFF to 1; the message-IDs of at most 65535
  sequential requests are pairwise distinct.
\<close>

theorem message_id_generation:
  assumes "0 \<le> c_messageId st" "c_messageId st \<le> 0xFFFF" "length rs \<le> 65535"
  shows "distinct (request_mids cborEncode rs st)
       \<and> c_messageId (snd (request cborEncode method uri payload now st)) =
           (if c_messageId st = 0xFFFF then 1 else c_messageId st + 1)
       \<and> (\<forall>p st'. request cborEncode method uri payload now st = (Inr p, st') \<longrightarrow>
             c_pendingRequests st' = (c_pendingRequests st)
               (c_messageId st \<mapsto> \<lparr>p_promise = c_promises st, p_timeout = c_promises st,
                                    p_method = method, p_uri = uri, p_sentAt = now\<rparr>))
       \<and> (\<forall>methodCode. METHODS (toUpperCase method) = Some methodCode \<longrightarrow>
             c_events (snd (request cborEncode method uri payload now st)) =
               c_events st @ [SerialWrite (createCoapFrame
                 (buildMessage cborEncode methodCode uri payload (c_messageId st)))])
       \<and> (\<forall>r. 0 \<le> r \<and> r < 1 \<longrightarrow>
             0 \<le> c_messageId (new_client r :: 'v client)
             \<and> c_messageId (new_client r :: 'v client) \<le> 0xFFFE)"
proof -
  have "c_messageId (snd (request cborEncode method uri payload now st)) =
           (if c_messageId st = 0xFFFF then 1 else c_messageId st + 1)"
    using assms(2) by (simp add: request_counter wrap_increment_def)
  then show ?thesis
    using request_mids_distinct [OF assms] request_stores request_writes new_client_counter
    by blast
qed

theorem message_id_generation_witness:
  "distinct (request_mids cbor_encode_empty
       [(''GET'', ''/c'', NoPayload, 7), (''GET'', ''/c'', NoPayload, 8)] collision_state)
   \<and> request_mids cbor_encode_empty
       [(''GET'', ''/c'', NoPayload, 7), (''GET'', ''/c'', NoPayload, 8)] collision_state = [5, 6]
   \<and> c_messageId (snd (request cbor_encode_empty ''GET'' ''/c'' NoPayload 7 collision_state)) = 6
   \<and> c_messageId (new_client 0 :: unit client) = 0"
proof -
  have c: "c_messageId collision_state = 5" by (simp add: collision_state_def)
  have h: "0 \<le> c_messageId collision_state" "c_messageId collision_state \<le> 0xFFFF"
    "length [(''GET'', ''/c'', NoPayload :: unit request_payload, 7 :: int), (''GET'', ''/c'', NoPayload, 8)] \<le> 65535"
    by (simp_all add: c)
  have m: "request_mids cbor_encode_empty
       [(''GET'', ''/c'', NoPayload, 7), (''GET'', ''/c'', NoPayload, 8)] collision_state = [5, 6]"
    by (simp add: c request_counter wrap_increment_def)
  show ?thesis
    using message_id_generation [OF h, of cbor_encode_empty "''GET''" "''/c''" NoPayload 7] m
    by (simp add: c new_client_def)
qed

subsection \<open>Response handling\<close>

lemma handleCoapResponse_unknown:
  assumes "parseResponse cborDecode buf = Inr response"
    and "c_pendingRequests st (resp_messageId response) = None"
  shows "handleCoapResponse cborDecode buf st =
           st\<lparr>c_events := c_events st @ [WarnUnknownMessageId (resp_messageId response)]\<rparr>"
  using assms by (simp add: handleCoapResponse_def)

lemma handleCoapResponse_pending:
  assumes "parseResponse cborDecode buf = Inr response"
    and "c_pendingRequests st (resp_messageId response) = Some pending"
  shows "handleCoapResponse cborDecode buf st =
           st\<lparr>c_timers := c_timers st - {p_timeout pending},
              c_pendingRequests := (c_pendingRequests st)(resp_messageId response := None),
              c_events := c_events st @
                [LogResponse (resp_codeName response) (resp_messageId response),
                 if resp_codeClass response = 2
                 then Resolved (p_promise pending) (resp_payload response)
                 else Rejected (p_promise pending)
                        (CoapError (resp_codeName response) (resp_code response)
                           (resp_payload response))]\<rparr>"
  using assms by (simp add: handleCoapResponse_def Let_def)

lemma handleCoapResponse_others:
  assumes "parseResponse cborDecode buf = Inr response" and "m \<noteq> resp_messageId response"
  shows "c_pendingRequests (handleCoapResponse cborDecode buf st) m = c_pendingRequests st m"
  using assms by (simp add: handleCoapResponse_def Let_def split: option.splits)

lemma parse_content_5:
  "parseResponse cbor_decode_fails [0x60, 0x45, 0x00, 0x05] =
     Inr \<lparr>resp_version = 1, resp_type = 2, resp_code = 69, resp_messageId = 5,
          resp_payload = Null, resp_codeClass = 2, resp_codeName = ''2.05 Content''\<rparr>"
  by (simp add: parseResponse_def js_defs buf_defs RESPONSE_CODES_def Let_def)

lemma parse_content_0:
  "parseResponse cbor_decode_fails [0x60, 0x45, 0x00, 0x00] =
     Inr \<lparr>resp_version = 1, resp_type = 2, resp_code = 69, resp_messageId = 0,
          resp_payload = Null, resp_codeClass = 2, resp_codeName = ''2.05 Content''\<rparr>"
  by (simp add: parseResponse_def js_defs buf_defs RESPONSE_CODES_def Let_def)

subsection \<open>Request options\<close>

text \<open>
  The options of a request as the specification lists them, as (number, value) pairs:
  one Uri-Path option per non-empty path segment, one Content-Format option with the
  two-byte value 0x0104, one Uri-Query option per non-empty query item. The segments and
  query items are the values \<open>segments\<close> and \<open>queries\<close> of \<open>encodeOptions\<close>.
\<close>

definition uri_segments :: "string \<Rightarrow> string list" where
  "uri_segments uri =
     filter (\<lambda>s. s \<noteq> [])
       (js_split (CHR ''/'') (case js_split (CHR ''?'') uri of [] \<Rightarrow> [] | p # _ \<Rightarrow> p))"

definition uri_queries :: "string \<Rightarrow> string list" where
  "uri_queries uri =
     (case js_split (CHR ''?'') uri of
        _ # q # _ \<Rightarrow> filter (\<lambda>s. s \<noteq> []) (js_split (CHR ''&'') q)
      | _ \<Rightarrow> [])"

definition request_options :: "string \<Rightarrow> (int \<times> int list) list" where
  "request_options uri =
     map (\<lambda>s. (URI_PATH, map charCodeAt s)) (uri_segments uri)
     @ [(CONTENT_FORMAT, [0x01, 0x04])]
     @ map (\<lambda>q. (URI_QUERY, map charCodeAt q)) (uri_queries uri)"

text \<open>A list of options written one after the other, each with the delta to the option
  number before it.\<close>

fun emit_options :: "int \<Rightarrow> (int \<times> int list) list \<Rightarrow> int list" where
  "emit_options prev [] = []"
| "emit_options prev ((num, val) # opts) =
     encodeOptionHeader (num - prev) (int (length val)) @ val @ emit_options num opts"

lemma path_loop_emit:
  "path_loop segs (options, prev) =
     (options @ emit_options prev (map (\<lambda>s. (URI_PATH, map charCodeAt s)) segs),
      if segs = [] then prev else URI_PATH)"
  by (induction segs arbitrary: options prev) simp_all

lemma query_loop_emit:
  "fst (query_loop qs (options, prev)) =
     options @ emit_options prev (map (\<lambda>q. (URI_QUERY, map charCodeAt q)) qs)"
  by (induction qs arbitrary: options prev) simp_all

lemma emit_options_append:
  "emit_options prev (xs @ ys) =
     emit_options prev xs @ emit_options (if xs = [] then prev else fst (last xs)) ys"
  by (induction xs arbitrary: prev) auto

lemma last_path_option:
  "segs \<noteq> [] \<Longrightarrow> fst (last (map (\<lambda>s. (URI_PATH, map charCodeAt s)) segs)) = URI_PATH"
  by (simp add: last_map)

lemma js_split_nonempty: "js_split c s \<noteq> []"
  by (induction s) (auto split: list.splits)

lemma encodeOptions_emit: "encodeOptions uri = emit_options 0 (request_options uri)"
proof -
  obtain p rest where parts: "js_split (CHR ''?'') uri = p # rest"
    using js_split_nonempty [of "CHR ''?''" uri] by (cases "js_split (CHR ''?'') uri") auto
  show ?thesis
  proof (cases rest)
    case Nil
    then show ?thesis
      using parts
      by (simp add: encodeOptions_def request_options_def uri_segments_def uri_queries_def
          path_loop_emit emit_options_append last_path_option Let_def)
  next
    case (Cons q more)
    show ?thesis
    proof (cases "q = []")
      case True
      then show ?thesis
        using parts Cons
        by (simp add: encodeOptions_def request_options_def uri_segments_def uri_queries_def
            path_loop_emit emit_options_append last_path_option Let_def)
    next
      case False
      then show ?thesis
        using parts Cons
        by (simp add: encodeOptions_def request_options_def uri_segments_def uri_queries_def
            path_loop_emit query_loop_emit emit_options_append last_path_option Let_def)
    qed
  qed
qed

lemma request_options_get:
  "request_options ''/c?d=a'' = [(11, [0x63]), (12, [0x01, 0x04]), (15, [0x64, 0x3D, 0x61])]"
  by (simp add: request_options_def uri_segments_def uri_queries_def URI_PATH_def
      CONTENT_FORMAT_def URI_QUERY_def charCodeAt_def)

lemma emit_options_get:
  "emit_options 0 [(11, [0x63]), (12, [0x01, 0x04]), (15, [0x64, 0x3D, 0x61])] =
     [0xB1, 0x63, 0x12, 0x01, 0x04, 0x33, 0x64, 0x3D, 0x61]"
  by (simp add: encodeOptionHeader_def js_defs Let_def)
text \<open>
  Reading a sequence of options back, by the option format of the specification: the high
  nibble of the first byte is the delta to the option number before, the low nibble the
  length; the nibble values 13 and 14 stand for one or two following bytes that hold the
  value less 13 or less 269. Reading stops at the end of the bytes or at the payload marker
  0xFF.
\<close>

fun read_ext :: "int \<Rightarrow> byte list \<Rightarrow> (int \<times> byte list) option" where
  "read_ext n bs =
     (if n < 13 then Some (n, bs)
      else if n = 13 then (case bs of [] \<Rightarrow> None | b # r \<Rightarrow> Some (uint b + 13, r))
      else if n = 14 then
        (case bs of b1 # b2 # r \<Rightarrow> Some (uint b1 * 256 + uint b2 + 269, r) | _ \<Rightarrow> None)
      else None)"

lemma read_ext_length: "read_ext n bs = Some (v, r) \<Longrightarrow> length r \<le> length bs"
  by (auto split: if_splits list.splits)

declare read_ext.simps [simp del]

function read_options :: "int \<Rightarrow> byte list \<Rightarrow> (int \<times> byte list) list option" where
  "read_options prev [] = Some []"
| "read_options prev (b # r) =
     (if b = 0xFF then Some []
      else
        (case read_ext (uint b div 16) r of
           None \<Rightarrow> None
         | Some (delta, r1) \<Rightarrow>
             (case read_ext (uint b mod 16) r1 of
                None \<Rightarrow> None
              | Some (len, r2) \<Rightarrow>
                  if int (length r2) < len then None
                  else
                    (case read_options (prev + delta) (drop (nat len) r2) of
                       None \<Rightarrow> None
                     | Some opts \<Rightarrow> Some ((prev + delta, take (nat len) r2) # opts)))))"
  by pat_completeness auto
termination
proof (relation "measure (\<lambda>(prev, bs). length bs)", goal_cases)
  case 1
  show ?case by simp
next
  case (2 prev b r x2 delta r1 x2a len r2)
  then have "length r1 \<le> length r" "length r2 \<le> length r1"
    by (auto dest: read_ext_length)
  then show ?case by simp
qed

lemma small_or:
  fixes d l :: int
  assumes "0 \<le> d" "d < 16" "0 \<le> l" "l < 16"
  shows "js_or (js_shl d 4) l = d * 16 + l"
proof -
  have l: "take_bit 4 l = l" using assms by (simp add: take_bit_int_eq_self)
  have "push_bit 4 d OR take_bit 4 l = concat_bit 4 l d"
    by (simp add: concat_bit_def or.commute)
  also have "\<dots> = take_bit 4 l + push_bit 4 d" by (rule concat_bit_eq)
  finally have "push_bit 4 d OR l = d * 16 + l" by (simp add: l push_bit_eq_mult)
  moreover have "ToInt32 d = d" "ToInt32 l = l" "ToInt32 (push_bit 4 d) = push_bit 4 d"
    using assms by (simp_all add: ToInt32_id push_bit_eq_mult)
  ultimately show ?thesis by (simp add: js_or_def js_shl_def)
qed

lemma js_low_byte: "0 \<le> x \<Longrightarrow> x < 2147483648 \<Longrightarrow> js_and x 0xFF = x mod 256"
proof -
  assume a: "0 \<le> x" "x < 2147483648"
  have "x AND 255 = take_bit 8 x" by (simp add: take_bit_eq_mask mask_eq_exp_minus_1)
  then show ?thesis using a by (simp add: js_and_def ToInt32_id take_bit_eq_mod)
qed

lemma js_high_byte: "0 \<le> x \<Longrightarrow> x < 2147483648 \<Longrightarrow> js_sar x 8 = x div 256"
  by (simp add: js_sar_def ToInt32_id drop_bit_eq_div)

lemma uint_byte: "0 \<le> x \<Longrightarrow> x < 256 \<Longrightarrow> uint (word_of_int x :: byte) = x"
  by (simp add: uint_word_of_int take_bit_int_eq_self)

text \<open>The header that \<open>encodeOptionHeader\<close> writes for a delta below 13 and a length below
  \<open>269 + 65536\<close>: its first byte and the bytes of the extended length.\<close>

lemma header_small_delta:
  assumes "0 \<le> delta" "delta < 13" "0 \<le> len" "len < 65805"
  shows "Buffer_from (encodeOptionHeader delta len) =
           (if len < 13 then [word_of_int (delta * 16 + len)]
            else if len < 269 then [word_of_int (delta * 16 + 13), word_of_int (len - 13)]
            else [word_of_int (delta * 16 + 14), word_of_int ((len - 269) div 256),
                  word_of_int ((len - 269) mod 256)])"
proof -
  have hi: "js_and (js_sar (len - 269) 8) 0xFF = (len - 269) div 256" if "269 \<le> len"
  proof -
    have "js_sar (len - 269) 8 = (len - 269) div 256"
      using that assms by (simp add: js_high_byte)
    moreover have "0 \<le> (len - 269) div 256" "(len - 269) div 256 < 256"
      using that assms by simp_all
    ultimately show ?thesis by (simp add: js_low_byte)
  qed
  have lo: "js_and (len - 269) 0xFF = (len - 269) mod 256" if "269 \<le> len"
    using that assms by (simp add: js_low_byte)
  show ?thesis
    using assms hi lo
    by (simp add: encodeOptionHeader_def Buffer_from_def Let_def small_or)
qed

lemma read_emitted_option:
  assumes "0 \<le> delta" "delta < 13" "length val < 65805"
  shows "read_options prev (Buffer_from (encodeOptionHeader delta (int (length val)) @ val) @ rest) =
           (case read_options (prev + delta) rest of
              None \<Rightarrow> None
            | Some opts \<Rightarrow> Some ((prev + delta, Buffer_from val) # opts))"
proof -
  define len where "len = int (length val)"
  have len: "0 \<le> len" "len < 65805" using assms by (simp_all add: len_def)
  have lv: "length (Buffer_from val) = nat len" by (simp add: len_def Buffer_from_def)
  have split: "Buffer_from (encodeOptionHeader delta len @ val) @ rest =
               Buffer_from (encodeOptionHeader delta len) @ Buffer_from val @ rest"
    by (simp add: Buffer_from_def)
  define lv4 where "lv4 = (if len < 13 then len else if len < 269 then 13 else 14)"
  have lv4: "0 \<le> lv4" "lv4 \<le> 14" using len by (simp_all add: lv4_def)
  define hb :: byte where "hb = word_of_int (delta * 16 + lv4)"
  define e :: byte where "e = word_of_int (len - 13)"
  define e1 :: byte where "e1 = word_of_int ((len - 269) div 256)"
  define e2 :: byte where "e2 = word_of_int ((len - 269) mod 256)"
  have hdr: "Buffer_from (encodeOptionHeader delta len) =
           (if len < 13 then [hb] else if len < 269 then [hb, e] else [hb, e1, e2])"
    unfolding header_small_delta [OF assms(1,2) len] hb_def e_def e1_def e2_def lv4_def
    by simp
  have b: "uint hb = delta * 16 + lv4"
    unfolding hb_def using assms lv4 by (intro uint_byte) simp_all
  then have dm: "uint hb div 16 = delta" "uint hb mod 16 = lv4"
    using assms lv4 by simp_all
  have nm: "hb \<noteq> 0xFF"
  proof
    assume "hb = 0xFF"
    then have "uint hb = 255" by simp
    then show False using b assms lv4 by simp
  qed
  have ue: "uint e = len - 13" if "13 \<le> len" "len < 269"
    unfolding e_def using that by (intro uint_byte) simp_all
  have ue1: "uint e1 = (len - 269) div 256" if "269 \<le> len"
    unfolding e1_def using that len by (intro uint_byte) simp_all
  have ue2: "uint e2 = (len - 269) mod 256"
    unfolding e2_def by (intro uint_byte) simp_all
  have body: "(if int (length (Buffer_from val @ rest)) < len then None
               else (case read_options (prev + delta) (drop (nat len) (Buffer_from val @ rest)) of
                       None \<Rightarrow> None
                     | Some opts \<Rightarrow>
                         Some ((prev + delta, take (nat len) (Buffer_from val @ rest)) # opts))) =
              (case read_options (prev + delta) rest of
                 None \<Rightarrow> None
               | Some opts \<Rightarrow> Some ((prev + delta, Buffer_from val) # opts))"
  proof -
    have "take (nat len) (Buffer_from val @ rest) = Buffer_from val"
      "drop (nat len) (Buffer_from val @ rest) = rest"
      using lv by simp_all
    then show ?thesis using lv len by (simp split: option.splits)
  qed
  consider (short) "len < 13" | (mid) "13 \<le> len" "len < 269" | (long) "269 \<le> len"
    by linarith
  then show ?thesis
  proof cases
    case short
    then have "lv4 = len" by (simp add: lv4_def)
    then show ?thesis
      unfolding len_def [symmetric] split hdr
      using short assms nm body
      by (simp add: dm read_ext.simps)
  next
    case mid
    then have "lv4 = 13" by (simp add: lv4_def)
    then show ?thesis
      unfolding len_def [symmetric] split hdr
      using mid assms nm body ue
      by (simp add: dm read_ext.simps)
  next
    case long
    then have "lv4 = 14" by (simp add: lv4_def)
    moreover have "(len - 269) div 256 * 256 + (len - 269) mod 256 + 269 = len" by simp
    ultimately show ?thesis
      unfolding len_def [symmetric] split hdr
      using long assms nm body ue1 ue2
      by (simp add: dm read_ext.simps)
  qed
qed
text \<open>Options that the format can hold when written after the option number \<open>prev\<close>:
  ascending numbers with deltas below 13, values shorter than \<open>269 + 65536\<close> bytes.\<close>

fun options_fit :: "int \<Rightarrow> (int \<times> int list) list \<Rightarrow> bool" where
  "options_fit prev [] = True"
| "options_fit prev ((num, val) # opts) =
     (prev \<le> num \<and> num - prev < 13 \<and> length val < 65805 \<and> options_fit num opts)"

lemma read_emitted_options:
  assumes "options_fit prev opts" and "rest = [] \<or> hd rest = 0xFF"
  shows "read_options prev (Buffer_from (emit_options prev opts) @ rest) =
           Some (map (\<lambda>(num, val). (num, Buffer_from val)) opts)"
  using assms(1)
proof (induction opts arbitrary: prev)
  case Nil
  show ?case using assms(2) by (cases rest) (simp_all add: Buffer_from_def)
next
  case (Cons opt opts)
  obtain num val where opt: "opt = (num, val)" by (cases opt) auto
  from Cons.prems have fit: "0 \<le> num - prev" "num - prev < 13" "length val < 65805"
    and tl: "options_fit num opts"
    by (simp_all add: opt)
  have "Buffer_from (emit_options prev (opt # opts)) @ rest =
        Buffer_from (encodeOptionHeader (num - prev) (int (length val)) @ val)
        @ (Buffer_from (emit_options num opts) @ rest)"
    by (simp add: opt Buffer_from_def)
  then show ?case
    using read_emitted_option [OF fit, of prev "Buffer_from (emit_options num opts) @ rest"]
      Cons.IH [OF tl]
    by (simp add: opt)
qed

lemma options_fit_append:
  "options_fit prev (xs @ ys) \<longleftrightarrow>
     options_fit prev xs \<and> options_fit (if xs = [] then prev else fst (last xs)) ys"
  by (induction xs arbitrary: prev) auto

lemma options_fit_same:
  "\<forall>s \<in> set ss. length s < 65805 \<Longrightarrow> prev \<le> num \<Longrightarrow> num - prev < 13 \<Longrightarrow>
   options_fit prev (map (\<lambda>s. (num, map charCodeAt s)) ss)"
  by (induction ss arbitrary: prev) simp_all

lemma request_options_fit:
  assumes "\<forall>s \<in> set (uri_segments uri) \<union> set (uri_queries uri). length s < 65805"
  shows "options_fit 0 (request_options uri)"
proof -
  have p: "options_fit 0 (map (\<lambda>s. (URI_PATH, map charCodeAt s)) (uri_segments uri))"
    using assms by (intro options_fit_same) (simp_all add: URI_PATH_def)
  have q: "options_fit CONTENT_FORMAT (map (\<lambda>s. (URI_QUERY, map charCodeAt s)) (uri_queries uri))"
    using assms by (intro options_fit_same) (simp_all add: URI_QUERY_def CONTENT_FORMAT_def)
  let ?ps = "map (\<lambda>s. (URI_PATH, map charCodeAt s)) (uri_segments uri)"
  have n: "(if ?ps = [] then 0 else fst (last ?ps)) = (if uri_segments uri = [] then 0 else URI_PATH)"
    by (simp add: last_path_option)
  have c: "options_fit (if ?ps = [] then 0 else fst (last ?ps))
             ((CONTENT_FORMAT, [0x01, 0x04]) # map (\<lambda>s. (URI_QUERY, map charCodeAt s)) (uri_queries uri))"
    unfolding n using q by (simp add: URI_PATH_def CONTENT_FORMAT_def)
  show ?thesis
    unfolding request_options_def options_fit_append
    using p c by simp
qed

lemma buildMessage_bytes:
  "buildMessage cborEncode methodCode uri payload mid =
     Buffer_from ([0x40, methodCode, js_and (js_sar mid 8) 0xFF, js_and mid 0xFF]
                  @ emit_options 0 (request_options uri))
     @ (case payload of
          NoPayload \<Rightarrow> []
        | BufferPayload encoded \<Rightarrow> 0xFF # encoded
        | ValuePayload v \<Rightarrow> 0xFF # cborEncode v)"
proof -
  have h: "js_or (js_or (js_shl 1 6) (js_shl 0 4)) 0 = 0x40"
    by (simp add: js_defs)
  have m: "map (word_of_int \<circ> uint) bs = bs" for bs :: "byte list"
    by (induction bs) simp_all
  show ?thesis
    by (cases payload)
       (simp_all add: buildMessage_def Let_def h encodeOptions_emit Buffer_from_def m)
qed

lemma content_format_once:
  "filter (\<lambda>opt. fst opt = CONTENT_FORMAT) (request_options uri) = [(CONTENT_FORMAT, [0x01, 0x04])]"
  by (simp add: request_options_def filter_map comp_def URI_PATH_def URI_QUERY_def CONTENT_FORMAT_def)

lemma parse_get_request:
  "parseResponse cbor_decode_fails
     [0x40, 0x01, 0x12, 0x34, 0xB1, 0x63, 0x12, 0x01, 0x04, 0x33, 0x64, 0x3D, 0x61] =
     Inr \<lparr>resp_version = 1, resp_type = 0, resp_code = 1, resp_messageId = 0x1234,
          resp_payload = Null, resp_codeClass = 0, resp_codeName = ''0.01''\<rparr>"
  by (simp add: parseResponse_def js_defs buf_defs RESPONSE_CODES_def Let_def
      toString10.simps padStart_def char_of_def bit_0)

text \<open>
  C6: the message built for GET /c?d=a with message-ID 0x1234 and no payload is the 13
  bytes of the scenario: header 0x40 0x01 0x12 0x34 (read back by the parser as version 1,
  type 0, code 1, message-ID 0x1234, no payload), Uri-Path "c" as 0xB1 0x63 (delta 11,
  length 1), Content-Format as 0x12 0x01 0x04 (delta 1, length 2), Uri-Query "d=a" as
  0x33 0x64 0x3D 0x61 (delta 3, length 3). For every method code, URI, payload and
  message-ID the message is the four header bytes, the options of the request written
  one after the other, and the payload behind the marker 0xFF when there is one; among
  the options of the request exactly one has the number 12, and its value is the two bytes
  0x01 0x04, that is 260; and when no path segment or query item is longer than 65804
  characters, reading the bytes after the header by the option format gives back exactly
  these options.
\<close>

theorem buildMessage_content_format:
  "buildMessage cborEncode 1 ''/c?d=a'' NoPayload 0x1234 =
     [0x40, 0x01, 0x12, 0x34, 0xB1, 0x63, 0x12, 0x01, 0x04, 0x33, 0x64, 0x3D, 0x61]
   \<and> parseResponse cbor_decode_fails (buildMessage cborEncode 1 ''/c?d=a'' NoPayload 0x1234) =
       Inr \<lparr>resp_version = 1, resp_type = 0, resp_code = 1, resp_messageId = 0x1234,
            resp_payload = Null, resp_codeClass = 0, resp_codeName = ''0.01''\<rparr>
   \<and> request_options ''/c?d=a'' = [(11, [0x63]), (12, [0x01, 0x04]), (15, [0x64, 0x3D, 0x61])]
   \<and> buildMessage cborEncode methodCode uri payload mid =
       Buffer_from ([0x40, methodCode, js_and (js_sar mid 8) 0xFF, js_and mid 0xFF]
                    @ emit_options 0 (request_options uri))
       @ (case payload of
            NoPayload \<Rightarrow> []
          | BufferPayload encoded \<Rightarrow> 0xFF # encoded
          | ValuePayload v \<Rightarrow> 0xFF # cborEncode v)
   \<and> filter (\<lambda>opt. fst opt = CONTENT_FORMAT) (request_options uri) =
       [(CONTENT_FORMAT, [0x01, 0x04])]
   \<and> 0x01 * 256 + 0x04 = CONTENT_FORMAT_YANG_CBOR
   \<and> ((\<forall>s \<in> set (uri_segments uri) \<union> set (uri_queries uri). length s < 65805) \<longrightarrow>
        read_options 0 (drop 4 (buildMessage cborEncode methodCode uri payload mid)) =
          Some (map (\<lambda>(num, val). (num, Buffer_from val)) (request_options uri)))"
proof -
  have s2: "buildMessage cborEncode 1 ''/c?d=a'' NoPayload 0x1234 =
     [0x40, 0x01, 0x12, 0x34, 0xB1, 0x63, 0x12, 0x01, 0x04, 0x33, 0x64, 0x3D, 0x61]"
    unfolding buildMessage_bytes request_options_get emit_options_get
    by (simp add: Buffer_from_def js_defs)
  have rd: "read_options 0 (drop 4 (buildMessage cborEncode methodCode uri payload mid)) =
          Some (map (\<lambda>(num, val). (num, Buffer_from val)) (request_options uri))"
    if "\<forall>s \<in> set (uri_segments uri) \<union> set (uri_queries uri). length s < 65805"
  proof -
    let ?rest = "case payload of NoPayload \<Rightarrow> [] | BufferPayload encoded \<Rightarrow> 0xFF # encoded
                 | ValuePayload v \<Rightarrow> 0xFF # cborEncode v"
    have r: "?rest = [] \<or> hd ?rest = 0xFF" by (cases payload) simp_all
    have "drop 4 (buildMessage cborEncode methodCode uri payload mid) =
          Buffer_from (emit_options 0 (request_options uri)) @ ?rest"
      unfolding buildMessage_bytes by (simp add: Buffer_from_def)
    then show ?thesis
      using read_emitted_options [OF request_options_fit [OF that] r] by simp
  qed
  show ?thesis
    using s2 parse_get_request request_options_get buildMessage_bytes content_format_once rd
    by (simp add: CONTENT_FORMAT_YANG_CBOR_def)
qed

theorem buildMessage_content_format_witness:
  "(uri_segments ''/c?d=a'' = [''c''] \<and> uri_queries ''/c?d=a'' = [''d=a''])
   \<and> read_options 0 (drop 4 (buildMessage cbor_encode_empty 1 ''/c?d=a'' NoPayload 0x1234)) =
       Some [(11, [0x63]), (12, [0x01, 0x04]), (15, [0x64, 0x3D, 0x61])]"
proof -
  have u: "uri_segments ''/c?d=a'' = [''c'']" "uri_queries ''/c?d=a'' = [''d=a'']"
    by (simp_all add: uri_segments_def uri_queries_def)
  have h: "\<forall>s \<in> set (uri_segments ''/c?d=a'') \<union> set (uri_queries ''/c?d=a''). length s < 65805"
    unfolding u by simp
  have "read_options 0 (drop 4 (buildMessage cbor_encode_empty 1 ''/c?d=a'' NoPayload 0x1234)) =
          Some (map (\<lambda>(num, val). (num, Buffer_from val)) (request_options ''/c?d=a''))"
    using buildMessage_content_format [of cbor_encode_empty 1 "''/c?d=a''" NoPayload "0x1234"] h
    by blast
  then show ?thesis
    using u by (simp add: request_options_get Buffer_from_def)
qed

subsection \<open>Requests and responses on one connection\<close>

text \<open>
  What is done with a client after the constructor: calls of \<open>request\<close> (the methods
  \<open>get\<close>, \<open>post\<close> and so on call it), data handed to \<open>handleData\<close>, responses handed to
  \<open>handleCoapResponse\<close> (by \<open>handleData\<close>, for every frame of type C), and the callbacks
  of the timers armed by \<open>request\<close>. No other code reads or writes \<open>messageId\<close> or
  \<open>pendingRequests\<close>. A run applies a list of these actions one after the other.
\<close>

datatype 'v action =
    Call_request string string "'v request_payload" int
  | Call_handleData "byte list"
  | Call_handleCoapResponse "byte list"
  | Timer_callback nat int string string

fun step ::
  "('v \<Rightarrow> byte list) \<Rightarrow> (byte list \<Rightarrow> 'v option) \<Rightarrow> 'v action \<Rightarrow> 'v client \<Rightarrow> 'v client" where
  "step cborEncode cborDecode (Call_request method uri payload now) st =
     snd (request cborEncode method uri payload now st)"
| "step cborEncode cborDecode (Call_handleData chunk) st =
     handleData cborDecode chunk st"
| "step cborEncode cborDecode (Call_handleCoapResponse buf) st =
     handleCoapResponse cborDecode buf st"
| "step cborEncode cborDecode (Timer_callback p mid method uri) st =
     timer_fires p mid method uri st"

fun run ::
  "('v \<Rightarrow> byte list) \<Rightarrow> (byte list \<Rightarrow> 'v option) \<Rightarrow> 'v action list \<Rightarrow> 'v client \<Rightarrow> 'v client" where
  "run cborEncode cborDecode [] st = st"
| "run cborEncode cborDecode (a # acts) st =
     run cborEncode cborDecode acts (step cborEncode cborDecode a st)"

fun is_request :: "'v action \<Rightarrow> bool" where
  "is_request (Call_request method uri payload now) = True"
| "is_request (Call_handleData chunk) = False"
| "is_request (Call_handleCoapResponse buf) = False"
| "is_request (Timer_callback p mid method uri) = False"

text \<open>
  An action concerns the message-ID \<open>M\<close> when it is a request issued while the counter
  stands at \<open>M\<close>, a response that parses with message-ID \<open>M\<close>, or the timer callback of a
  request with message-ID \<open>M\<close>. Received data is counted as concerning every message-ID:
  the frames it completes may hold a response with any message-ID, and such a response is
  the action \<open>Call_handleCoapResponse\<close>. A run leaves \<open>M\<close> undisturbed when none of its
  actions concerns \<open>M\<close> in the state in which it is applied.
\<close>

fun concerns :: "(byte list \<Rightarrow> 'v option) \<Rightarrow> int \<Rightarrow> 'v action \<Rightarrow> 'v client \<Rightarrow> bool" where
  "concerns cborDecode M (Call_request method uri payload now) st = (c_messageId st = M)"
| "concerns cborDecode M (Call_handleData chunk) st = True"
| "concerns cborDecode M (Call_handleCoapResponse buf) st =
     (case parseResponse cborDecode buf of
        Inl e \<Rightarrow> False
      | Inr response \<Rightarrow> resp_messageId response = M)"
| "concerns cborDecode M (Timer_callback p mid method uri) st = (mid = M)"

fun undisturbed ::
  "('v \<Rightarrow> byte list) \<Rightarrow> (byte list \<Rightarrow> 'v option) \<Rightarrow> int \<Rightarrow> 'v action list \<Rightarrow> 'v client \<Rightarrow> bool" where
  "undisturbed cborEncode cborDecode M [] st = True"
| "undisturbed cborEncode cborDecode M (a # acts) st =
     (\<not> concerns cborDecode M a st
      \<and> undisturbed cborEncode cborDecode M acts (step cborEncode cborDecode a st))"

lemma handleCoapResponse_counter [simp]:
  "c_messageId (handleCoapResponse cborDecode buf st) = c_messageId st"
  by (simp add: handleCoapResponse_def Let_def split: sum.splits option.splits)

lemma timer_fires_counter [simp]:
  "c_messageId (timer_fires p mid method uri st) = c_messageId st"
  by (simp add: timer_fires_def Let_def)

lemma dispatch_counter [simp]:
  "c_messageId (dispatch cborDecode frameData st) = c_messageId st"
  by (simp add: dispatch_def split: sum.splits)

lemma handle_loop_counter: "c_messageId (handle_loop cborDecode st) = c_messageId st"
proof (induction cborDecode st rule: handle_loop.induct)
  case (1 cborDecode st)
  show ?case
  proof (cases "next_frame (c_receiveBuffer st)")
    case (Wait receiveBuffer)
    then show ?thesis by (subst handle_loop.simps) simp
  next
    case (Frame frameData receiveBuffer)
    then show ?thesis using 1 [OF Frame] by (subst handle_loop.simps) simp
  qed
qed

lemma handleData_counter [simp]:
  "c_messageId (handleData cborDecode chunk st) = c_messageId st"
  by (simp add: handleData_def handle_loop_counter)

lemma step_counter:
  "c_messageId (step cborEncode cborDecode a st) =
     (if is_request a then wrap_increment (c_messageId st) else c_messageId st)"
  by (cases a) (simp_all add: request_counter)

lemma run_counter_positive:
  "1 \<le> c_messageId st \<Longrightarrow> c_messageId st \<le> 0xFFFF \<Longrightarrow>
   1 \<le> c_messageId (run cborEncode cborDecode acts st)
   \<and> c_messageId (run cborEncode cborDecode acts st) \<le> 0xFFFF"
proof (induction acts arbitrary: st)
  case Nil
  then show ?case by simp
next
  case (Cons a acts)
  have "1 \<le> c_messageId (step cborEncode cborDecode a st)
      \<and> c_messageId (step cborEncode cborDecode a st) \<le> 0xFFFF"
    using Cons.prems wrap_increment_range [of "c_messageId st"] by (simp add: step_counter)
  then show ?case using Cons.IH by simp
qed

lemma run_counter_after_request:
  "0 \<le> c_messageId st \<Longrightarrow> c_messageId st \<le> 0xFFFF \<Longrightarrow> \<exists>a \<in> set acts. is_request a \<Longrightarrow>
   1 \<le> c_messageId (run cborEncode cborDecode acts st)
   \<and> c_messageId (run cborEncode cborDecode acts st) \<le> 0xFFFF"
proof (induction acts arbitrary: st)
  case Nil
  then show ?case by simp
next
  case (Cons a acts)
  show ?case
  proof (cases "is_request a")
    case True
    have "1 \<le> c_messageId (step cborEncode cborDecode a st)
        \<and> c_messageId (step cborEncode cborDecode a st) \<le> 0xFFFF"
      using Cons.prems(1,2) wrap_increment_range [of "c_messageId st"] True
      by (simp add: step_counter)
    then show ?thesis
      using run_counter_positive [of "step cborEncode cborDecode a st" cborEncode cborDecode acts]
      by simp
  next
    case False
    then have "\<exists>a \<in> set acts. is_request a" using Cons.prems(3) by auto
    moreover have "c_messageId (step cborEncode cborDecode a st) = c_messageId st"
      using False by (simp add: step_counter)
    ultimately show ?thesis using Cons.IH [of "step cborEncode cborDecode a st"] Cons.prems(1,2)
      by simp
  qed
qed

text \<open>The message-ID that \<open>buildMessage\<close> writes into bytes 2 and 3 is the one that
  \<open>parseResponse\<close> reads from a message with this header.\<close>

lemma byte_or:
  fixes h l :: int
  assumes "0 \<le> h" "h < 256" "0 \<le> l" "l < 256"
  shows "js_or (js_shl h 8) l = h * 256 + l"
proof -
  have l: "take_bit 8 l = l" using assms by (simp add: take_bit_int_eq_self)
  have "push_bit 8 h OR take_bit 8 l = concat_bit 8 l h"
    by (simp add: concat_bit_def or.commute)
  also have "\<dots> = take_bit 8 l + push_bit 8 h" by (rule concat_bit_eq)
  finally have "push_bit 8 h OR l = h * 256 + l" by (simp add: l push_bit_eq_mult)
  moreover have "ToInt32 h = h" "ToInt32 l = l" "ToInt32 (push_bit 8 h) = push_bit 8 h"
    using assms by (simp_all add: ToInt32_id push_bit_eq_mult)
  ultimately show ?thesis by (simp add: js_or_def js_shl_def)
qed

lemma buildMessage_header:
  assumes "0 \<le> mid" "mid \<le> 0xFFFF"
  shows "\<exists>rest. buildMessage cborEncode methodCode uri payload mid =
           0x40 # word_of_int methodCode # word_of_int (mid div 256) # word_of_int (mid mod 256) # rest"
proof -
  have lo: "js_and mid 0xFF = mid mod 256" using assms by (simp add: js_low_byte)
  have "js_and (js_sar mid 8) 0xFF = (mid div 256) mod 256"
    using assms by (simp add: js_high_byte js_low_byte)
  also have "\<dots> = mid div 256" using assms by simp
  finally show ?thesis
    unfolding buildMessage_bytes by (simp add: lo Buffer_from_def)
qed

lemma buildMessage_messageId:
  assumes "0 \<le> mid" "mid \<le> 0xFFFF"
  shows "\<exists>response. parseResponse cborDecode (buildMessage cborEncode methodCode uri payload mid)
                       = Inr response
                    \<and> resp_messageId response = mid"
proof -
  obtain rest where b: "buildMessage cborEncode methodCode uri payload mid =
      0x40 # word_of_int methodCode # word_of_int (mid div 256) # word_of_int (mid mod 256) # rest"
    using buildMessage_header [OF assms] by blast
  have h: "0 \<le> mid div 256" "mid div 256 < 256" "0 \<le> mid mod 256" "mid mod 256 < 256"
    using assms by simp_all
  have "js_or (js_shl (uint (word_of_int (mid div 256) :: byte)) 8)
              (uint (word_of_int (mid mod 256) :: byte)) = mid"
    using h by (simp add: uint_byte byte_or)
  then show ?thesis
    unfolding b by (simp add: parseResponse_def Let_def)
qed

lemma request_sends:
  assumes "METHODS (toUpperCase method) = Some methodCode"
  shows "request cborEncode method uri payload now st =
           (Inr (c_promises st),
            st\<lparr>c_messageId := wrap_increment (c_messageId st),
               c_promises := c_promises st + 1,
               c_timers := insert (c_promises st) (c_timers st),
               c_pendingRequests := (c_pendingRequests st)
                 (c_messageId st \<mapsto> \<lparr>p_promise = c_promises st, p_timeout = c_promises st,
                                      p_method = method, p_uri = uri, p_sentAt = now\<rparr>),
               c_events := c_events st @ [SerialWrite (createCoapFrame
                 (buildMessage cborEncode methodCode uri payload (c_messageId st)))]\<rparr>)"
  using assms by (simp add: request_def next_mid_def Let_def wrap_increment_def)

lemma request_unknown_method:
  assumes "METHODS (toUpperCase method) = None"
  shows "request cborEncode method uri payload now st =
           (Inl (UnknownMethod method), st\<lparr>c_messageId := wrap_increment (c_messageId st)\<rparr>)"
  using assms by (simp add: request_def next_mid_def Let_def wrap_increment_def)

lemma step_entry:
  assumes "\<not> concerns cborDecode M a st"
  shows "c_pendingRequests (step cborEncode cborDecode a st) M = c_pendingRequests st M"
proof (cases a)
  case (Call_request meth uri payload now)
  then show ?thesis
    using assms by (cases "METHODS (toUpperCase meth)") (simp_all add: request_sends request_unknown_method)
next
  case (Call_handleData chunk)
  then show ?thesis using assms by simp
next
  case (Call_handleCoapResponse buf)
  then show ?thesis
    using assms
    by (cases "parseResponse cborDecode buf")
       (simp_all add: handleCoapResponse_others, simp add: handleCoapResponse_def)
next
  case (Timer_callback p mid meth uri)
  then show ?thesis using assms by (simp add: timer_fires_def Let_def)
qed

lemma undisturbed_entry:
  "undisturbed cborEncode cborDecode M acts st \<Longrightarrow>
   c_pendingRequests (run cborEncode cborDecode acts st) M = c_pendingRequests st M"
proof (induction acts arbitrary: st)
  case Nil
  then show ?case by simp
next
  case (Cons a acts)
  then show ?case by (simp add: step_entry)
qed

text \<open>Two requests in flight on a fresh connection: \<open>GET /a\<close> with message-ID 0 and
  promise 0, then \<open>GET /b\<close> with message-ID 1 and promise 1; and a connection whose first
  request has been answered.\<close>

definition first_sent :: "unit client" where
  "first_sent = snd (request cbor_encode_empty ''GET'' ''/a'' NoPayload 7 (new_client 0))"

definition both_sent :: "unit client" where
  "both_sent =
     run cbor_encode_empty cbor_decode_fails [Call_request ''GET'' ''/b'' NoPayload 8] first_sent"

definition first_answered :: "unit client" where
  "first_answered =
     run cbor_encode_empty cbor_decode_fails
       [Call_request ''GET'' ''/c'' NoPayload 7, Call_handleCoapResponse [0x60, 0x45, 0x00, 0x00]]
       (new_client 0)"

lemma parse_not_found_1:
  "parseResponse cbor_decode_fails [0x60, 0x84, 0x00, 0x01] =
     Inr \<lparr>resp_version = 1, resp_type = 2, resp_code = 132, resp_messageId = 1,
          resp_payload = Null, resp_codeClass = 4, resp_codeName = ''4.04 Not Found''\<rparr>"
  by (simp add: parseResponse_def js_defs buf_defs RESPONSE_CODES_def Let_def)

lemma message_get_c:
  "buildMessage cbor_encode_empty 1 ''/c'' NoPayload 0 =
     [0x40, 0x01, 0x00, 0x00, 0xB1, 0x63, 0x12, 0x01, 0x04]"
  "buildMessage cbor_encode_empty 1 ''/c'' NoPayload 1 =
     [0x40, 0x01, 0x00, 0x01, 0xB1, 0x63, 0x12, 0x01, 0x04]"
proof -
  have o: "request_options ''/c'' = [(11, [0x63]), (12, [0x01, 0x04])]"
    by (simp add: request_options_def uri_segments_def uri_queries_def URI_PATH_def
        CONTENT_FORMAT_def URI_QUERY_def charCodeAt_def)
  have e: "emit_options 0 [(11, [0x63]), (12, [0x01, 0x04])] = [0xB1, 0x63, 0x12, 0x01, 0x04]"
    by (simp add: encodeOptionHeader_def js_defs Let_def)
  show "buildMessage cbor_encode_empty 1 ''/c'' NoPayload 0 =
     [0x40, 0x01, 0x00, 0x00, 0xB1, 0x63, 0x12, 0x01, 0x04]"
    unfolding buildMessage_bytes o e by (simp add: Buffer_from_def js_defs)
  show "buildMessage cbor_encode_empty 1 ''/c'' NoPayload 1 =
     [0x40, 0x01, 0x00, 0x01, 0xB1, 0x63, 0x12, 0x01, 0x04]"
    unfolding buildMessage_bytes o e by (simp add: Buffer_from_def js_defs)
qed

lemma parse_get_c_1:
  "parseResponse cbor_decode_fails [0x40, 0x01, 0x00, 0x01, 0xB1, 0x63, 0x12, 0x01, 0x04] =
     Inr \<lparr>resp_version = 1, resp_type = 0, resp_code = 1, resp_messageId = 1,
          resp_payload = Null, resp_codeClass = 0, resp_codeName = ''0.01''\<rparr>"
  by (simp add: parseResponse_def js_defs buf_defs RESPONSE_CODES_def Let_def
      toString10.simps padStart_def char_of_def bit_0)

lemma first_answered_state:
  "first_answered =
     \<lparr>c_messageId = 1, c_pendingRequests = Map.empty, c_receiveBuffer = [], c_timers = {},
      c_promises = 1,
      c_events = [SerialWrite (createCoapFrame [0x40, 0x01, 0x00, 0x00, 0xB1, 0x63, 0x12, 0x01, 0x04]),
                  LogResponse ''2.05 Content'' 0, Resolved 0 Null]\<rparr>"
  by (simp add: first_answered_def request_sends [OF METHODS_GET] new_client_def
      wrap_increment_def message_get_c handleCoapResponse_def parse_content_0)

lemma METHODS_NOPE: "METHODS (toUpperCase ''NOPE'') = None"
  by (simp add: METHODS_def str_defs)

lemma first_sent_request:
  "request cbor_encode_empty ''GET'' ''/a'' NoPayload 7 (new_client 0) = (Inr 0, first_sent)"
  by (simp add: first_sent_def request_sends [OF METHODS_GET] new_client_def)

lemma first_sent_state:
  "first_sent =
     \<lparr>c_messageId = 1,
      c_pendingRequests = [0 \<mapsto> \<lparr>p_promise = 0, p_timeout = 0, p_method = ''GET'',
                                   p_uri = ''/a'', p_sentAt = 7\<rparr>],
      c_receiveBuffer = [], c_timers = {0}, c_promises = 1,
      c_events = [SerialWrite (createCoapFrame
                    (buildMessage cbor_encode_empty 1 ''/a'' NoPayload 0))]\<rparr>"
  by (simp add: first_sent_def request_sends [OF METHODS_GET] new_client_def wrap_increment_def)

lemma both_sent_request:
  "request cbor_encode_empty ''GET'' ''/b'' NoPayload 8 first_sent = (Inr 1, both_sent)"
  by (simp add: both_sent_def request_sends [OF METHODS_GET] first_sent_state)

lemma both_sent_state:
  "both_sent =
     \<lparr>c_messageId = 2,
      c_pendingRequests = [0 \<mapsto> \<lparr>p_promise = 0, p_timeout = 0, p_method = ''GET'',
                                   p_uri = ''/a'', p_sentAt = 7\<rparr>,
                           1 \<mapsto> \<lparr>p_promise = 1, p_timeout = 1, p_method = ''GET'',
                                   p_uri = ''/b'', p_sentAt = 8\<rparr>],
      c_receiveBuffer = [], c_timers = {0, 1}, c_promises = 2,
      c_events = [SerialWrite (createCoapFrame
                    (buildMessage cbor_encode_empty 1 ''/a'' NoPayload 0)),
                  SerialWrite (createCoapFrame
                    (buildMessage cbor_encode_empty 1 ''/b'' NoPayload 1))]\<rparr>"
  by (auto simp: both_sent_def request_sends [OF METHODS_GET] first_sent_state wrap_increment_def)

text \<open>
  C10: the counter starts in [0, 0xFFFE], and at 0 when \<open>Math.random()\<close> gives 0. The first
  request of a connection whose counter starts at 0 is sent with message-ID 0: the frame
  written to the serial port is the frame of the message built with message-ID 0, bytes 2
  and 3 of that message read back as 0, and the waiter is stored under 0. Once a request
  has been made on a connection, whatever else has happened on it (requests, responses,
  timer callbacks), the counter is in [1, 0xFFFF] and a request is sent with the value of
  the counter: frame, header bytes and key of the pending map carry this value, which is
  not 0. A call with an unknown method moves the counter and sends and stores nothing.
\<close>

theorem message_id_zero_only_first:
  assumes "0 \<le> r" "r < 1"
  shows "0 \<le> c_messageId (new_client r :: 'v client)
       \<and> c_messageId (new_client r :: 'v client) \<le> 0xFFFE
       \<and> c_messageId (new_client 0 :: 'v client) = 0
       \<and> (\<forall>methodCode. METHODS (toUpperCase method) = Some methodCode \<longrightarrow>
            request cborEncode method uri payload now (new_client 0 :: 'v client) =
              (Inr 0,
               \<lparr>c_messageId = 1,
                c_pendingRequests = [0 \<mapsto> \<lparr>p_promise = 0, p_timeout = 0, p_method = method,
                                             p_uri = uri, p_sentAt = now\<rparr>],
                c_receiveBuffer = [], c_timers = {0}, c_promises = 1,
                c_events = [SerialWrite (createCoapFrame
                              (buildMessage cborEncode methodCode uri payload 0))]\<rparr>)
            \<and> (\<exists>response.
                  parseResponse cborDecode (buildMessage cborEncode methodCode uri payload 0)
                    = Inr response
                  \<and> resp_messageId response = 0))
       \<and> (\<forall>acts st methodCode.
            (\<exists>a \<in> set acts. is_request a)
            \<and> st = run cborEncode cborDecode acts (new_client r)
            \<and> METHODS (toUpperCase method) = Some methodCode \<longrightarrow>
            1 \<le> c_messageId st \<and> c_messageId st \<le> 0xFFFF
            \<and> request cborEncode method uri payload now st =
                (Inr (c_promises st),
                 st\<lparr>c_messageId := wrap_increment (c_messageId st),
                    c_promises := c_promises st + 1,
                    c_timers := insert (c_promises st) (c_timers st),
                    c_pendingRequests := (c_pendingRequests st)
                      (c_messageId st \<mapsto> \<lparr>p_promise = c_promises st, p_timeout = c_promises st,
                                           p_method = method, p_uri = uri, p_sentAt = now\<rparr>),
                    c_events := c_events st @ [SerialWrite (createCoapFrame
                      (buildMessage cborEncode methodCode uri payload (c_messageId st)))]\<rparr>)
            \<and> (\<exists>response.
                  parseResponse cborDecode
                      (buildMessage cborEncode methodCode uri payload (c_messageId st))
                    = Inr response
                  \<and> resp_messageId response = c_messageId st
                  \<and> resp_messageId response \<noteq> 0))
       \<and> (\<forall>st. METHODS (toUpperCase method) = None \<longrightarrow>
            request cborEncode method uri payload now st =
              (Inl (UnknownMethod method), st\<lparr>c_messageId := wrap_increment (c_messageId st)\<rparr>))"
proof -
  have c: "0 \<le> c_messageId (new_client r :: 'v client)"
    "c_messageId (new_client r :: 'v client) \<le> 0xFFFE"
    using new_client_counter [OF assms, where 'v = 'v] by auto
  have z: "c_messageId (new_client 0 :: 'v client) = 0"
    by (simp add: new_client_def)
  have first: "request cborEncode method uri payload now (new_client 0 :: 'v client) =
              (Inr 0,
               \<lparr>c_messageId = 1,
                c_pendingRequests = [0 \<mapsto> \<lparr>p_promise = 0, p_timeout = 0, p_method = method,
                                             p_uri = uri, p_sentAt = now\<rparr>],
                c_receiveBuffer = [], c_timers = {0}, c_promises = 1,
                c_events = [SerialWrite (createCoapFrame
                              (buildMessage cborEncode methodCode uri payload 0))]\<rparr>)"
    if "METHODS (toUpperCase method) = Some methodCode" for methodCode
    by (simp add: request_sends [OF that] new_client_def wrap_increment_def)
  have first_id: "\<exists>response.
        parseResponse cborDecode (buildMessage cborEncode methodCode uri payload 0) = Inr response
        \<and> resp_messageId response = 0" for methodCode
    by (rule buildMessage_messageId) simp_all
  have later: "1 \<le> c_messageId st \<and> c_messageId st \<le> 0xFFFF
            \<and> (\<exists>response.
                  parseResponse cborDecode
                      (buildMessage cborEncode methodCode uri payload (c_messageId st))
                    = Inr response
                  \<and> resp_messageId response = c_messageId st
                  \<and> resp_messageId response \<noteq> 0)"
    if "\<exists>a \<in> set acts. is_request a" "st = run cborEncode cborDecode acts (new_client r)"
    for acts st methodCode
  proof -
    have range: "1 \<le> c_messageId st \<and> c_messageId st \<le> 0xFFFF"
      unfolding that(2) using c that(1) by (intro run_counter_after_request) simp_all
    then obtain response where
      "parseResponse cborDecode (buildMessage cborEncode methodCode uri payload (c_messageId st))
         = Inr response" "resp_messageId response = c_messageId st"
      using buildMessage_messageId [of "c_messageId st" cborDecode cborEncode methodCode uri payload]
      by auto
    then show ?thesis using range by auto
  qed
  have A: "\<forall>methodCode. METHODS (toUpperCase method) = Some methodCode \<longrightarrow>
            request cborEncode method uri payload now (new_client 0 :: 'v client) =
              (Inr 0,
               \<lparr>c_messageId = 1,
                c_pendingRequests = [0 \<mapsto> \<lparr>p_promise = 0, p_timeout = 0, p_method = method,
                                             p_uri = uri, p_sentAt = now\<rparr>],
                c_receiveBuffer = [], c_timers = {0}, c_promises = 1,
                c_events = [SerialWrite (createCoapFrame
                              (buildMessage cborEncode methodCode uri payload 0))]\<rparr>)
            \<and> (\<exists>response.
                  parseResponse cborDecode (buildMessage cborEncode methodCode uri payload 0)
                    = Inr response
                  \<and> resp_messageId response = 0)"
    using first first_id by (intro allI impI conjI)
  have B: "\<forall>acts st methodCode.
            (\<exists>a \<in> set acts. is_request a)
            \<and> st = run cborEncode cborDecode acts (new_client r)
            \<and> METHODS (toUpperCase method) = Some methodCode \<longrightarrow>
            1 \<le> c_messageId st \<and> c_messageId st \<le> 0xFFFF
            \<and> request cborEncode method uri payload now st =
                (Inr (c_promises st),
                 st\<lparr>c_messageId := wrap_increment (c_messageId st),
                    c_promises := c_promises st + 1,
                    c_timers := insert (c_promises st) (c_timers st),
                    c_pendingRequests := (c_pendingRequests st)
                      (c_messageId st \<mapsto> \<lparr>p_promise = c_promises st, p_timeout = c_promises st,
                                           p_method = method, p_uri = uri, p_sentAt = now\<rparr>),
                    c_events := c_events st @ [SerialWrite (createCoapFrame
                      (buildMessage cborEncode methodCode uri payload (c_messageId st)))]\<rparr>)
            \<and> (\<exists>response.
                  parseResponse cborDecode
                      (buildMessage cborEncode methodCode uri payload (c_messageId st))
                    = Inr response
                  \<and> resp_messageId response = c_messageId st
                  \<and> resp_messageId response \<noteq> 0)"
  proof (intro allI impI, elim conjE)
    fix acts st methodCode
    assume h: "\<exists>a \<in> set acts. is_request a"
      "st = run cborEncode cborDecode acts (new_client r)"
      "METHODS (toUpperCase method) = Some methodCode"
    note l = later [OF h(1,2), of methodCode]
    from l have l1: "1 \<le> c_messageId st" and l2: "c_messageId st \<le> 0xFFFF"
      and l3: "\<exists>response.
                  parseResponse cborDecode
                      (buildMessage cborEncode methodCode uri payload (c_messageId st))
                    = Inr response
                  \<and> resp_messageId response = c_messageId st
                  \<and> resp_messageId response \<noteq> 0"
      by blast+
    from l1 l2 request_sends [OF h(3), of cborEncode uri payload now st] l3
    show "1 \<le> c_messageId st \<and> c_messageId st \<le> 0xFFFF
            \<and> request cborEncode method uri payload now st =
                (Inr (c_promises st),
                 st\<lparr>c_messageId := wrap_increment (c_messageId st),
                    c_promises := c_promises st + 1,
                    c_timers := insert (c_promises st) (c_timers st),
                    c_pendingRequests := (c_pendingRequests st)
                      (c_messageId st \<mapsto> \<lparr>p_promise = c_promises st, p_timeout = c_promises st,
                                           p_method = method, p_uri = uri, p_sentAt = now\<rparr>),
                    c_events := c_events st @ [SerialWrite (createCoapFrame
                      (buildMessage cborEncode methodCode uri payload (c_messageId st)))]\<rparr>)
            \<and> (\<exists>response.
                  parseResponse cborDecode
                      (buildMessage cborEncode methodCode uri payload (c_messageId st))
                    = Inr response
                  \<and> resp_messageId response = c_messageId st
                  \<and> resp_messageId response \<noteq> 0)"
      by (intro conjI)
  qed
  have C: "\<forall>st. METHODS (toUpperCase method) = None \<longrightarrow>
            request cborEncode method uri payload now st =
              (Inl (UnknownMethod method), st\<lparr>c_messageId := wrap_increment (c_messageId st)\<rparr>)"
    using request_unknown_method by (intro allI impI)
  from c z A B C show ?thesis by (intro conjI)
qed

theorem message_id_zero_only_first_witness:
  "c_messageId (new_client 0 :: unit client) = 0
   \<and> request cbor_encode_empty ''GET'' ''/c'' NoPayload 7 (new_client 0) =
       (Inr 0,
        \<lparr>c_messageId = 1,
         c_pendingRequests = [0 \<mapsto> \<lparr>p_promise = 0, p_timeout = 0, p_method = ''GET'',
                                      p_uri = ''/c'', p_sentAt = 7\<rparr>],
         c_receiveBuffer = [], c_timers = {0}, c_promises = 1,
         c_events = [SerialWrite (createCoapFrame
                       [0x40, 0x01, 0x00, 0x00, 0xB1, 0x63, 0x12, 0x01, 0x04])]\<rparr>)
   \<and> (\<exists>a \<in> set [Call_request ''GET'' ''/c'' NoPayload 7,
                  Call_handleCoapResponse [0x60, 0x45, 0x00, 0x00 :: byte]
                    :: unit action]. is_request a)
   \<and> c_messageId first_answered = 1
   \<and> request cbor_encode_empty ''GET'' ''/c'' NoPayload 9 first_answered =
       (Inr 1,
        \<lparr>c_messageId = 2,
         c_pendingRequests = [1 \<mapsto> \<lparr>p_promise = 1, p_timeout = 1, p_method = ''GET'',
                                      p_uri = ''/c'', p_sentAt = 9\<rparr>],
         c_receiveBuffer = [], c_timers = {1}, c_promises = 2,
         c_events = [SerialWrite (createCoapFrame
                       [0x40, 0x01, 0x00, 0x00, 0xB1, 0x63, 0x12, 0x01, 0x04]),
                     LogResponse ''2.05 Content'' 0, Resolved 0 Null,
                     SerialWrite (createCoapFrame
                       [0x40, 0x01, 0x00, 0x01, 0xB1, 0x63, 0x12, 0x01, 0x04])]\<rparr>)
   \<and> parseResponse cbor_decode_fails [0x40, 0x01, 0x00, 0x01, 0xB1, 0x63, 0x12, 0x01, 0x04] =
       Inr \<lparr>resp_version = 1, resp_type = 0, resp_code = 1, resp_messageId = 1,
            resp_payload = Null, resp_codeClass = 0, resp_codeName = ''0.01''\<rparr>
   \<and> request cbor_encode_empty ''NOPE'' ''/c'' NoPayload 7 (new_client 0 :: unit client) =
       (Inl (UnknownMethod ''NOPE''), (new_client 0)\<lparr>c_messageId := 1\<rparr>)"
proof -
  have h: "(0::real) \<le> 0" "(0::real) < 1" by simp_all
  let ?acts = "[Call_request ''GET'' ''/c'' NoPayload 7,
                Call_handleCoapResponse [0x60, 0x45, 0x00, 0x00 :: byte] :: unit action]"
  have rq: "\<exists>a \<in> set ?acts. is_request a" by simp
  have fa: "first_answered = run cbor_encode_empty cbor_decode_fails ?acts (new_client 0)"
    by (simp only: first_answered_def)
  note t7 = message_id_zero_only_first [OF h, where 'v = unit, of "''GET''" cbor_encode_empty
      "''/c''" NoPayload 7 cbor_decode_fails]
  note t9 = message_id_zero_only_first [OF h, where 'v = unit, of "''GET''" cbor_encode_empty
      "''/c''" NoPayload 9 cbor_decode_fails]
  note tn = message_id_zero_only_first [OF h, where 'v = unit, of "''NOPE''" cbor_encode_empty
      "''/c''" NoPayload 7 cbor_decode_fails]
  have a: "c_messageId (new_client 0 :: unit client) = 0"
    using t7 by blast
  have b: "request cbor_encode_empty ''GET'' ''/c'' NoPayload 7 (new_client 0) =
       (Inr 0,
        \<lparr>c_messageId = 1,
         c_pendingRequests = [0 \<mapsto> \<lparr>p_promise = 0, p_timeout = 0, p_method = ''GET'',
                                      p_uri = ''/c'', p_sentAt = 7\<rparr>],
         c_receiveBuffer = [], c_timers = {0}, c_promises = 1,
         c_events = [SerialWrite (createCoapFrame
                       (buildMessage cbor_encode_empty 1 ''/c'' NoPayload 0))]\<rparr>)"
    using t7 METHODS_GET by blast
  have c: "1 \<le> c_messageId first_answered \<and> c_messageId first_answered \<le> 0xFFFF
     \<and> request cbor_encode_empty ''GET'' ''/c'' NoPayload 9 first_answered =
         (Inr (c_promises first_answered),
          first_answered\<lparr>c_messageId := wrap_increment (c_messageId first_answered),
             c_promises := c_promises first_answered + 1,
             c_timers := insert (c_promises first_answered) (c_timers first_answered),
             c_pendingRequests := (c_pendingRequests first_answered)
               (c_messageId first_answered \<mapsto>
                  \<lparr>p_promise = c_promises first_answered, p_timeout = c_promises first_answered,
                   p_method = ''GET'', p_uri = ''/c'', p_sentAt = 9\<rparr>),
             c_events := c_events first_answered @ [SerialWrite (createCoapFrame
               (buildMessage cbor_encode_empty 1 ''/c'' NoPayload (c_messageId first_answered)))]\<rparr>)"
    using t9 rq fa METHODS_GET by blast
  have d: "request cbor_encode_empty ''NOPE'' ''/c'' NoPayload 7 (new_client 0 :: unit client) =
       (Inl (UnknownMethod ''NOPE''),
        (new_client 0)\<lparr>c_messageId := wrap_increment (c_messageId (new_client 0 :: unit client))\<rparr>)"
    using tn METHODS_NOPE by blast
  show ?thesis
    using a b c d parse_get_c_1
    by (simp add: message_get_c first_answered_state wrap_increment_def)
qed

text \<open>
  C8: for a parsed response with message-ID M. If M is not in the pending map, a warning
  is logged and nothing else changes. If M is pending, the timer of that entry is
  cancelled, the entry is removed, and the promise of that entry is resolved with the
  payload when the code class is 2, or else rejected with an error that carries the code
  name, the numeric code and the payload. No other entry of the pending map changes. For a
  request that took M as its message-ID and returned the promise p: in every state in
  which the entry under M is still the one this request stored, the response cancels the
  timer of this request, removes its entry, settles p, and changes nothing else; and this
  is the case in every state reached from the request by requests, responses and timer
  callbacks none of which concerns M, whatever else is in flight. (A later request that
  takes M again while the first is pending replaces the entry, see the message-IDs above.)
\<close>

theorem handleCoapResponse_settles:
  fixes cborDecode :: "byte list \<Rightarrow> 'v option" and st :: "'v client"
  assumes "parseResponse cborDecode buf = Inr response"
  shows "(c_pendingRequests st (resp_messageId response) = None \<longrightarrow>
            handleCoapResponse cborDecode buf st =
              st\<lparr>c_events := c_events st @ [WarnUnknownMessageId (resp_messageId response)]\<rparr>)
       \<and> (\<forall>pending. c_pendingRequests st (resp_messageId response) = Some pending \<longrightarrow>
            handleCoapResponse cborDecode buf st =
              st\<lparr>c_timers := c_timers st - {p_timeout pending},
                 c_pendingRequests := (c_pendingRequests st)(resp_messageId response := None),
                 c_events := c_events st @
                   [LogResponse (resp_codeName response) (resp_messageId response),
                    if resp_codeClass response = 2
                    then Resolved (p_promise pending) (resp_payload response)
                    else Rejected (p_promise pending)
                           (CoapError (resp_codeName response) (resp_code response)
                              (resp_payload response))]\<rparr>)
       \<and> (\<forall>m. m \<noteq> resp_messageId response \<longrightarrow>
            c_pendingRequests (handleCoapResponse cborDecode buf st) m = c_pendingRequests st m)
       \<and> (\<forall>(cborEncode :: 'v \<Rightarrow> byte list) method uri payload now st0 p st1.
            request cborEncode method uri payload now st0 = (Inr p, st1)
            \<and> resp_messageId response = c_messageId st0
            \<and> c_pendingRequests st (c_messageId st0) = c_pendingRequests st1 (c_messageId st0)
            \<longrightarrow>
            handleCoapResponse cborDecode buf st =
              st\<lparr>c_timers := c_timers st - {p},
                 c_pendingRequests := (c_pendingRequests st)(c_messageId st0 := None),
                 c_events := c_events st @
                   [LogResponse (resp_codeName response) (c_messageId st0),
                    if resp_codeClass response = 2
                    then Resolved p (resp_payload response)
                    else Rejected p (CoapError (resp_codeName response) (resp_code response)
                                       (resp_payload response))]\<rparr>)
       \<and> (\<forall>(cborEncode :: 'v \<Rightarrow> byte list) method uri payload now st0 p st1 acts st2.
            request cborEncode method uri payload now st0 = (Inr p, st1)
            \<and> resp_messageId response = c_messageId st0
            \<and> undisturbed cborEncode cborDecode (c_messageId st0) acts st1
            \<and> st2 = run cborEncode cborDecode acts st1
            \<longrightarrow>
            handleCoapResponse cborDecode buf st2 =
              st2\<lparr>c_timers := c_timers st2 - {p},
                  c_pendingRequests := (c_pendingRequests st2)(c_messageId st0 := None),
                  c_events := c_events st2 @
                    [LogResponse (resp_codeName response) (c_messageId st0),
                     if resp_codeClass response = 2
                     then Resolved p (resp_payload response)
                     else Rejected p (CoapError (resp_codeName response) (resp_code response)
                                        (resp_payload response))]\<rparr>)"
proof -
  have own: "handleCoapResponse cborDecode buf s =
              s\<lparr>c_timers := c_timers s - {p},
                c_pendingRequests := (c_pendingRequests s)(c_messageId st0 := None),
                c_events := c_events s @
                  [LogResponse (resp_codeName response) (c_messageId st0),
                   if resp_codeClass response = 2
                   then Resolved p (resp_payload response)
                   else Rejected p (CoapError (resp_codeName response) (resp_code response)
                                      (resp_payload response))]\<rparr>"
    if r: "request cborEncode meth uri payload now st0 = (Inr p, st1)"
      and m: "resp_messageId response = c_messageId st0"
      and e: "c_pendingRequests s (c_messageId st0) = c_pendingRequests st1 (c_messageId st0)"
    for cborEncode :: "'v \<Rightarrow> byte list" and meth uri payload now st0 p st1 s
  proof -
    have p: "p = c_promises st0"
      using r by (auto simp: request_def next_mid_def Let_def split: option.splits if_splits)
    have "c_pendingRequests s (resp_messageId response) =
            Some \<lparr>p_promise = p, p_timeout = p, p_method = meth, p_uri = uri, p_sentAt = now\<rparr>"
      unfolding m e request_stores [OF r] p by simp
    from handleCoapResponse_pending [OF assms this] show ?thesis by (simp add: m)
  qed
  have D: "\<forall>(cborEncode :: 'v \<Rightarrow> byte list) method uri payload now st0 p st1.
            request cborEncode method uri payload now st0 = (Inr p, st1)
            \<and> resp_messageId response = c_messageId st0
            \<and> c_pendingRequests st (c_messageId st0) = c_pendingRequests st1 (c_messageId st0)
            \<longrightarrow>
            handleCoapResponse cborDecode buf st =
              st\<lparr>c_timers := c_timers st - {p},
                 c_pendingRequests := (c_pendingRequests st)(c_messageId st0 := None),
                 c_events := c_events st @
                   [LogResponse (resp_codeName response) (c_messageId st0),
                    if resp_codeClass response = 2
                    then Resolved p (resp_payload response)
                    else Rejected p (CoapError (resp_codeName response) (resp_code response)
                                       (resp_payload response))]\<rparr>"
  proof (intro allI impI, elim conjE)
    fix cborEncode :: "'v \<Rightarrow> byte list" and meth uri payload now st0 p st1
    assume r: "request cborEncode meth uri payload now st0 = (Inr p, st1)"
      and m: "resp_messageId response = c_messageId st0"
      and e: "c_pendingRequests st (c_messageId st0) = c_pendingRequests st1 (c_messageId st0)"
    from own [OF r m e]
    show "handleCoapResponse cborDecode buf st =
              st\<lparr>c_timers := c_timers st - {p},
                 c_pendingRequests := (c_pendingRequests st)(c_messageId st0 := None),
                 c_events := c_events st @
                   [LogResponse (resp_codeName response) (c_messageId st0),
                    if resp_codeClass response = 2
                    then Resolved p (resp_payload response)
                    else Rejected p (CoapError (resp_codeName response) (resp_code response)
                                       (resp_payload response))]\<rparr>" .
  qed
  have E: "\<forall>(cborEncode :: 'v \<Rightarrow> byte list) method uri payload now st0 p st1 acts st2.
            request cborEncode method uri payload now st0 = (Inr p, st1)
            \<and> resp_messageId response = c_messageId st0
            \<and> undisturbed cborEncode cborDecode (c_messageId st0) acts st1
            \<and> st2 = run cborEncode cborDecode acts st1
            \<longrightarrow>
            handleCoapResponse cborDecode buf st2 =
              st2\<lparr>c_timers := c_timers st2 - {p},
                  c_pendingRequests := (c_pendingRequests st2)(c_messageId st0 := None),
                  c_events := c_events st2 @
                    [LogResponse (resp_codeName response) (c_messageId st0),
                     if resp_codeClass response = 2
                     then Resolved p (resp_payload response)
                     else Rejected p (CoapError (resp_codeName response) (resp_code response)
                                        (resp_payload response))]\<rparr>"
  proof (intro allI impI, elim conjE)
    fix cborEncode :: "'v \<Rightarrow> byte list" and meth uri payload now st0 p st1 acts st2
    assume r: "request cborEncode meth uri payload now st0 = (Inr p, st1)"
      and m: "resp_messageId response = c_messageId st0"
      and u: "undisturbed cborEncode cborDecode (c_messageId st0) acts st1"
      and s: "st2 = run cborEncode cborDecode acts st1"
    have "c_pendingRequests st2 (c_messageId st0) = c_pendingRequests st1 (c_messageId st0)"
      unfolding s by (rule undisturbed_entry [OF u])
    from own [OF r m this]
    show "handleCoapResponse cborDecode buf st2 =
              st2\<lparr>c_timers := c_timers st2 - {p},
                  c_pendingRequests := (c_pendingRequests st2)(c_messageId st0 := None),
                  c_events := c_events st2 @
                    [LogResponse (resp_codeName response) (c_messageId st0),
                     if resp_codeClass response = 2
                     then Resolved p (resp_payload response)
                     else Rejected p (CoapError (resp_codeName response) (resp_code response)
                                        (resp_payload response))]\<rparr>" .
  qed
  have A: "c_pendingRequests st (resp_messageId response) = None \<longrightarrow>
            handleCoapResponse cborDecode buf st =
              st\<lparr>c_events := c_events st @ [WarnUnknownMessageId (resp_messageId response)]\<rparr>"
    using handleCoapResponse_unknown [OF assms] by blast
  have B: "\<forall>pending. c_pendingRequests st (resp_messageId response) = Some pending \<longrightarrow>
            handleCoapResponse cborDecode buf st =
              st\<lparr>c_timers := c_timers st - {p_timeout pending},
                 c_pendingRequests := (c_pendingRequests st)(resp_messageId response := None),
                 c_events := c_events st @
                   [LogResponse (resp_codeName response) (resp_messageId response),
                    if resp_codeClass response = 2
                    then Resolved (p_promise pending) (resp_payload response)
                    else Rejected (p_promise pending)
                           (CoapError (resp_codeName response) (resp_code response)
                              (resp_payload response))]\<rparr>"
    using handleCoapResponse_pending [OF assms] by blast
  have C: "\<forall>m. m \<noteq> resp_messageId response \<longrightarrow>
            c_pendingRequests (handleCoapResponse cborDecode buf st) m = c_pendingRequests st m"
    using handleCoapResponse_others [OF assms] by blast
  from A B C D E show ?thesis by (intro conjI)
qed

theorem handleCoapResponse_settles_witness:
  "handleCoapResponse cbor_decode_fails [0x60, 0x45, 0x00, 0x05] collision_state =
     collision_state\<lparr>c_timers := {}, c_pendingRequests := Map.empty,
        c_events := [LogResponse ''2.05 Content'' 5, Resolved 0 Null]\<rparr>
   \<and> handleCoapResponse cbor_decode_fails [0x60, 0x45, 0x00, 0x05]
        (collision_state\<lparr>c_pendingRequests := Map.empty\<rparr>) =
     collision_state\<lparr>c_pendingRequests := Map.empty, c_events := [WarnUnknownMessageId 5]\<rparr>
   \<and> request cbor_encode_empty ''GET'' ''/a'' NoPayload 7 (new_client 0) = (Inr 0, first_sent)
   \<and> undisturbed cbor_encode_empty cbor_decode_fails 0
        [Call_request ''GET'' ''/b'' NoPayload 8] first_sent
   \<and> c_pendingRequests both_sent =
        [0 \<mapsto> \<lparr>p_promise = 0, p_timeout = 0, p_method = ''GET'', p_uri = ''/a'', p_sentAt = 7\<rparr>,
         1 \<mapsto> \<lparr>p_promise = 1, p_timeout = 1, p_method = ''GET'', p_uri = ''/b'', p_sentAt = 8\<rparr>]
   \<and> c_timers both_sent = {0, 1}
   \<and> handleCoapResponse cbor_decode_fails [0x60, 0x45, 0x00, 0x00] both_sent =
        both_sent\<lparr>c_timers := {1},
          c_pendingRequests :=
            [1 \<mapsto> \<lparr>p_promise = 1, p_timeout = 1, p_method = ''GET'', p_uri = ''/b'',
                     p_sentAt = 8\<rparr>],
          c_events := c_events both_sent @ [LogResponse ''2.05 Content'' 0, Resolved 0 Null]\<rparr>
   \<and> request cbor_encode_empty ''GET'' ''/b'' NoPayload 8 first_sent = (Inr 1, both_sent)
   \<and> handleCoapResponse cbor_decode_fails [0x60, 0x84, 0x00, 0x01] both_sent =
        both_sent\<lparr>c_timers := {0},
          c_pendingRequests :=
            [0 \<mapsto> \<lparr>p_promise = 0, p_timeout = 0, p_method = ''GET'', p_uri = ''/a'',
                     p_sentAt = 7\<rparr>],
          c_events := c_events both_sent
            @ [LogResponse ''4.04 Not Found'' 1,
               Rejected 1 (CoapError ''4.04 Not Found'' 132 Null)]\<rparr>"
proof -
  note t = handleCoapResponse_settles [OF parse_content_5]
  have a: "handleCoapResponse cbor_decode_fails [0x60, 0x45, 0x00, 0x05] collision_state =
     collision_state\<lparr>c_timers := {}, c_pendingRequests := Map.empty,
        c_events := [LogResponse ''2.05 Content'' 5, Resolved 0 Null]\<rparr>"
    using t [of collision_state] by (simp add: collision_state_def)
  have b: "handleCoapResponse cbor_decode_fails [0x60, 0x45, 0x00, 0x05]
        (collision_state\<lparr>c_pendingRequests := Map.empty\<rparr>) =
     collision_state\<lparr>c_pendingRequests := Map.empty, c_events := [WarnUnknownMessageId 5]\<rparr>"
    using t [of "collision_state\<lparr>c_pendingRequests := Map.empty\<rparr>"]
    by (simp add: collision_state_def)
  have m0: "c_messageId (new_client 0 :: unit client) = 0" by (simp add: new_client_def)
  have m1: "c_messageId first_sent = 1" by (simp add: first_sent_state)
  have u: "undisturbed cbor_encode_empty cbor_decode_fails 0
        [Call_request ''GET'' ''/b'' NoPayload 8] first_sent"
    by (simp add: m1)
  have r: "both_sent = run cbor_encode_empty cbor_decode_fails
        [Call_request ''GET'' ''/b'' NoPayload 8] first_sent"
    by (simp only: both_sent_def)
  have hc: "request cbor_encode_empty ''GET'' ''/a'' NoPayload 7 (new_client 0) = (Inr 0, first_sent)
      \<and> resp_messageId \<lparr>resp_version = 1, resp_type = 2, resp_code = 69, resp_messageId = 0,
          resp_payload = Null, resp_codeClass = 2, resp_codeName = ''2.05 Content''\<rparr>
          = c_messageId (new_client 0 :: unit client)
      \<and> undisturbed cbor_encode_empty cbor_decode_fails (c_messageId (new_client 0 :: unit client))
          [Call_request ''GET'' ''/b'' NoPayload 8] first_sent
      \<and> both_sent = run cbor_encode_empty cbor_decode_fails
          [Call_request ''GET'' ''/b'' NoPayload 8] first_sent"
    using first_sent_request u r by (simp add: m0)
  have c: "handleCoapResponse cbor_decode_fails [0x60, 0x45, 0x00, 0x00] both_sent =
        both_sent\<lparr>c_timers := c_timers both_sent - {0},
          c_pendingRequests := (c_pendingRequests both_sent)(0 := None),
          c_events := c_events both_sent @ [LogResponse ''2.05 Content'' 0, Resolved 0 Null]\<rparr>"
    using handleCoapResponse_settles [OF parse_content_0, of both_sent, THEN conjunct2,
        THEN conjunct2, THEN conjunct2, THEN conjunct2, rule_format, OF hc]
    by (simp add: m0)
  have hd: "request cbor_encode_empty ''GET'' ''/b'' NoPayload 8 first_sent = (Inr 1, both_sent)
      \<and> resp_messageId \<lparr>resp_version = 1, resp_type = 2, resp_code = 132, resp_messageId = 1,
          resp_payload = Null, resp_codeClass = 4, resp_codeName = ''4.04 Not Found''\<rparr>
          = c_messageId first_sent
      \<and> c_pendingRequests both_sent (c_messageId first_sent) =
          c_pendingRequests both_sent (c_messageId first_sent)"
    using both_sent_request by (simp add: m1)
  have d: "handleCoapResponse cbor_decode_fails [0x60, 0x84, 0x00, 0x01] both_sent =
        both_sent\<lparr>c_timers := c_timers both_sent - {1},
          c_pendingRequests := (c_pendingRequests both_sent)(1 := None),
          c_events := c_events both_sent
            @ [LogResponse ''4.04 Not Found'' 1,
               Rejected 1 (CoapError ''4.04 Not Found'' 132 Null)]\<rparr>"
    using handleCoapResponse_settles [OF parse_not_found_1, of both_sent, THEN conjunct2,
        THEN conjunct2, THEN conjunct2, THEN conjunct1, rule_format, OF hd]
    by (simp add: m1)
  have p: "c_pendingRequests both_sent =
        [0 \<mapsto> \<lparr>p_promise = 0, p_timeout = 0, p_method = ''GET'', p_uri = ''/a'', p_sentAt = 7\<rparr>,
         1 \<mapsto> \<lparr>p_promise = 1, p_timeout = 1, p_method = ''GET'', p_uri = ''/b'', p_sentAt = 8\<rparr>]"
    "c_timers both_sent = {0, 1}"
    by (simp_all add: both_sent_state)
  have tm: "c_timers both_sent - {0} = {1}" "c_timers both_sent - {1} = {0}"
    by (auto simp: both_sent_state)
  have p0: "(c_pendingRequests both_sent)(0 := None) =
        [1 \<mapsto> \<lparr>p_promise = 1, p_timeout = 1, p_method = ''GET'', p_uri = ''/b'',
                 p_sentAt = 8\<rparr>]"
    by (auto simp: both_sent_state fun_eq_iff)
  have p1: "(c_pendingRequests both_sent)(1 := None) =
        [0 \<mapsto> \<lparr>p_promise = 0, p_timeout = 0, p_method = ''GET'', p_uri = ''/a'',
                 p_sentAt = 7\<rparr>]"
    by (auto simp: both_sent_state fun_eq_iff)
  note c' = c [unfolded tm p0]
  note d' = d [unfolded tm p1]
  from a b first_sent_request u p c' both_sent_request d' show ?thesis by (intro conjI)
qed

subsection \<open>Checksum\<close>

text \<open>
  The checksum in the words of the specification: the bytes as big-endian 16-bit words
  (an odd last byte is the high byte of a word with low byte zero), their sum, carries
  above bit 15 added back until none remain, and the complement within 16 bits.
\<close>

fun be_words :: "byte list \<Rightarrow> nat list" where
  "be_words [] = []"
| "be_words [a] = [unat a * 256]"
| "be_words (a # b # r) = (unat a * 256 + unat b) # be_words r"

function fold16 :: "nat \<Rightarrow> nat" where
  "fold16 s = (if 65536 \<le> s then fold16 (s mod 65536 + s div 65536) else s)"
  by pat_completeness auto
termination
proof (relation "measure (\<lambda>s. s)", goal_cases)
  case 1
  show ?case by simp
next
  case (2 s)
  have "s = 65536 * (s div 65536) + s mod 65536" by simp
  moreover have "1 \<le> s div 65536" using 2 by (simp add: Suc_le_eq div_greater_zero_iff)
  ultimately have "s mod 65536 + s div 65536 < s" by linarith
  then show ?case by simp
qed

declare fold16.simps [simp del]

definition ones_complement_checksum :: "byte list \<Rightarrow> nat" where
  "ones_complement_checksum bytes = 65535 - fold16 (sum_list (be_words bytes))"

text \<open>The four upper-case hexadecimal digits of a 16-bit value.\<close>

definition HEX :: "nat \<Rightarrow> char" where
  "HEX d = (if d < 10 then char_of (of_char (CHR ''0'') + d) else char_of (of_char (CHR ''A'') + (d - 10)))"

definition hex4 :: "nat \<Rightarrow> string" where
  "hex4 c = [HEX (c div 4096), HEX (c div 256 mod 16), HEX (c div 16 mod 16), HEX (c mod 16)]"

lemma ToInt32_small: "0 \<le> x \<Longrightarrow> x < 2147483648 \<Longrightarrow> ToInt32 x = x"
  by (rule ToInt32_id) simp_all

lemma be_word_value:
  fixes a b :: byte
  shows "js_or (js_shl (uint a) 8) (uint b) = uint a * 256 + uint b"
proof -
  have a: "0 \<le> uint a" "uint a < 256" using uint_lt2p [of a] by simp_all
  have b: "0 \<le> uint b" "uint b < 256" using uint_lt2p [of b] by simp_all
  have tb: "take_bit 8 (uint b) = uint b" using b by (simp add: take_bit_int_eq_self)
  have "push_bit 8 (uint a) OR take_bit 8 (uint b) = concat_bit 8 (uint b) (uint a)"
    by (simp add: concat_bit_def or.commute)
  also have "\<dots> = take_bit 8 (uint b) + push_bit 8 (uint a)" by (rule concat_bit_eq)
  finally have "push_bit 8 (uint a) OR uint b = uint a * 256 + uint b"
    by (simp add: tb push_bit_eq_mult)
  moreover have "ToInt32 (uint a) = uint a" "ToInt32 (uint b) = uint b"
    using a b by (simp_all add: ToInt32_small)
  moreover have "ToInt32 (push_bit 8 (uint a)) = push_bit 8 (uint a)"
    using a by (intro ToInt32_small) (simp_all add: push_bit_eq_mult)
  ultimately show ?thesis by (simp add: js_or_def js_shl_def)
qed

lemma be_word_high:
  fixes a :: byte
  shows "js_shl (uint a) 8 = uint a * 256"
proof -
  have a: "0 \<le> uint a" "uint a < 256" using uint_lt2p [of a] by simp_all
  then have "ToInt32 (uint a) = uint a" by (simp add: ToInt32_small)
  moreover have "ToInt32 (push_bit 8 (uint a)) = push_bit 8 (uint a)"
    using a by (intro ToInt32_small) (simp_all add: push_bit_eq_mult)
  ultimately show ?thesis by (simp add: js_shl_def push_bit_eq_mult)
qed

lemma sum_words_eq: "sum_words s bytes = s + int (sum_list (be_words bytes))"
  by (induction s bytes rule: sum_words.induct)
     (simp_all add: be_word_value be_word_high [symmetric] del: of_nat_add of_nat_mult,
      simp_all add: be_word_high)

lemma fold_carry_eq:
  "s < 2147483648 \<Longrightarrow> fold_carry (int s) = int (fold16 s)"
proof (induction s rule: fold16.induct)
  case (1 s)
  have t: "ToInt32 (int s) = int s" using "1.prems" by (intro ToInt32_small) simp_all
  have sar: "js_sar (int s) 16 = int (s div 65536)"
    by (simp add: js_sar_16 t zdiv_int)
  have low: "js_and (int s) 0xFFFF = int (s mod 65536)"
    by (simp add: js_and_FFFF t zmod_int)
  show ?case
  proof (cases "65536 \<le> s")
    case True
    then have nz: "js_sar (int s) 16 \<noteq> 0" unfolding sar by simp
    have "s mod 65536 + s div 65536 < 2147483648" using "1.prems" by simp
    then have "fold_carry (int (s mod 65536 + s div 65536)) = int (fold16 (s mod 65536 + s div 65536))"
      using True by (rule "1.IH" [rotated])
    then show ?thesis
      using True nz by (subst fold_carry.simps, subst fold16.simps) (simp add: sar low)
  next
    case False
    then have "js_sar (int s) 16 = 0" unfolding sar by simp
    then show ?thesis
      using False by (subst fold_carry.simps, subst fold16.simps) simp
  qed
qed

lemma fold16_less: "fold16 s < 65536"
  by (induction s rule: fold16.induct) (subst fold16.simps, simp)

lemma complement_16: "0 \<le> f \<Longrightarrow> f < 65536 \<Longrightarrow> js_and (js_not f) 0xFFFF = 65535 - f"
proof -
  assume f: "0 \<le> f" "f < 65536"
  have "js_not f = - f - 1" using f by (simp add: js_not_def ToInt32_small not_int_def)
  moreover have "ToInt32 (- f - 1) = - f - 1" using f by (intro ToInt32_id) simp_all
  moreover have "(- f - 1) mod 65536 = 65535 - f"
  proof -
    have "65535 - f = (- f - 1) + 65536" by simp
    then have "(65535 - f) mod 65536 = ((- f - 1) + 65536) mod 65536" by (rule arg_cong)
    also have "\<dots> = (- f - 1) mod 65536" by (rule mod_add_self2)
    finally show ?thesis using f by simp
  qed
  ultimately show ?thesis by (simp add: js_and_FFFF)
qed

lemma calculateChecksum_small:
  assumes "sum_list (be_words bytes) < 2147483648"
  shows "calculateChecksum bytes = int (ones_complement_checksum bytes)"
proof -
  have "fold_carry (sum_words 0 bytes) = int (fold16 (sum_list (be_words bytes)))"
    using assms by (simp add: sum_words_eq fold_carry_eq)
  moreover have "fold16 (sum_list (be_words bytes)) < 65536" by (rule fold16_less)
  ultimately show ?thesis
    by (simp add: calculateChecksum_def ones_complement_checksum_def complement_16)
qed

lemma calculateChecksum_range: "0 \<le> calculateChecksum bytes \<and> calculateChecksum bytes < 65536"
  by (simp add: calculateChecksum_def js_and_FFFF)
lemma upper_hex_digit:
  assumes "d < 16"
  shows "toUpperCase_char (hex_digit d) = HEX d"
proof (cases "d < 10")
  case True
  then have "(48 + d) mod 256 = 48 + d" by simp
  then show ?thesis
    using True by (simp add: hex_digit_def HEX_def toUpperCase_char_def Let_def)
next
  case False
  then have "(87 + d) mod 256 = 87 + d" "87 + d - 32 = 65 + (d - 10)" using assms by simp_all
  then show ?thesis
    using False assms by (simp add: hex_digit_def HEX_def toUpperCase_char_def Let_def)
qed

lemma toString16_digits:
  assumes "n < 65536"
  shows "toString16 n =
     (if n < 16 then [hex_digit n]
      else if n < 256 then [hex_digit (n div 16), hex_digit (n mod 16)]
      else if n < 4096 then [hex_digit (n div 256), hex_digit (n div 16 mod 16), hex_digit (n mod 16)]
      else [hex_digit (n div 4096), hex_digit (n div 256 mod 16), hex_digit (n div 16 mod 16),
            hex_digit (n mod 16)])"
proof -
  have one: "toString16 k = [hex_digit k]" if "k < 16" for k
    using that by (subst toString16.simps) simp
  have two: "toString16 k = [hex_digit (k div 16), hex_digit (k mod 16)]" if "16 \<le> k" "k < 256" for k
    using that by (subst toString16.simps) (simp add: one)
  have three: "toString16 k = [hex_digit (k div 256), hex_digit (k div 16 mod 16), hex_digit (k mod 16)]"
    if "256 \<le> k" "k < 4096" for k
  proof -
    have "16 \<le> k div 16" "k div 16 < 256" using that by simp_all
    then show ?thesis using that by (subst toString16.simps) (simp add: two div_mult2_eq [symmetric])
  qed
  have four: "toString16 k = [hex_digit (k div 4096), hex_digit (k div 256 mod 16),
        hex_digit (k div 16 mod 16), hex_digit (k mod 16)]"
    if "4096 \<le> k" "k < 65536" for k
  proof -
    have "256 \<le> k div 16" "k div 16 < 4096" using that by simp_all
    then show ?thesis using that by (subst toString16.simps) (simp add: three div_mult2_eq [symmetric])
  qed
  show ?thesis using assms one two three four by (simp add: not_less)
qed

lemma checksumStr_hex4:
  assumes "0 \<le> c" "c < 65536"
  shows "checksumStr c = hex4 (nat c)"
proof -
  define n where "n = nat c"
  have n: "n < 65536" using assms by (simp add: n_def)
  have z: "HEX 0 = CHR ''0''" by (simp add: HEX_def char_of_def bit_0)
  have rep: "replicate 3 x = [x, x, x]" "replicate 2 x = [x, x]" for x :: char
    by (simp_all add: numeral_3_eq_3 numeral_2_eq_2)
  consider (a) "n < 16" | (b) "16 \<le> n" "n < 256" | (c) "256 \<le> n" "n < 4096" | (d) "4096 \<le> n"
    by linarith
  then show ?thesis
  proof cases
    case a
    then have "n div 4096 = 0" "n div 256 mod 16 = 0" "n div 16 mod 16 = 0" "n mod 16 = n" by simp_all
    then show ?thesis
      unfolding checksumStr_def n_def [symmetric] toString16_digits [OF n] hex4_def
      using a by (simp add: toUpperCase_def padStart_def upper_hex_digit z rep)
  next
    case b
    then have "n div 4096 = 0" "n div 256 mod 16 = 0" "n div 16 mod 16 = n div 16" "n div 16 < 16"
      by simp_all
    then show ?thesis
      unfolding checksumStr_def n_def [symmetric] toString16_digits [OF n] hex4_def
      using b by (simp add: toUpperCase_def padStart_def upper_hex_digit z rep)
  next
    case c
    then have "n div 4096 = 0" "n div 256 mod 16 = n div 256" "n div 256 < 16" by simp_all
    then show ?thesis
      unfolding checksumStr_def n_def [symmetric] toString16_digits [OF n] hex4_def
      using c by (simp add: toUpperCase_def padStart_def upper_hex_digit z rep)
  next
    case d
    have "n div 4096 < 16" using n by simp
    then show ?thesis
      unfolding checksumStr_def n_def [symmetric] toString16_digits [OF n] hex4_def
      using d by (simp add: toUpperCase_def padStart_def upper_hex_digit rep)
  qed
qed
lemma be_words_bound: "sum_list (be_words bytes) \<le> 65535 * ((length bytes + 1) div 2)"
proof (induction bytes rule: be_words.induct)
  case 1
  show ?case by simp
next
  case (2 a)
  have "unat a < 256" using unsigned_less [of a, where 'a = nat] by simp
  then show ?case by simp
next
  case (3 a b r)
  have "unat a < 256" "unat b < 256"
    using unsigned_less [of a, where 'a = nat] unsigned_less [of b, where 'a = nat] by simp_all
  then show ?case using 3 by simp
qed

text \<open>Up to 65536 bytes the sum of the words stays below \<open>2 ^ 31\<close>, and the code computes
  the checksum of the specification and writes it as its four upper-case hexadecimal
  digits.\<close>

lemma calculateChecksum_up_to_64KiB:
  assumes "length bytes \<le> 65536"
  shows "calculateChecksum bytes = int (ones_complement_checksum bytes)
       \<and> checksumStr (calculateChecksum bytes) = hex4 (ones_complement_checksum bytes)"
proof -
  have "(length bytes + 1) div 2 \<le> 32768" using assms by simp
  then have "65535 * ((length bytes + 1) div 2) \<le> 65535 * 32768" by (rule mult_le_mono2)
  then have "sum_list (be_words bytes) < 2147483648"
    using be_words_bound [of bytes] by simp
  then have c: "calculateChecksum bytes = int (ones_complement_checksum bytes)"
    by (rule calculateChecksum_small)
  have "ones_complement_checksum bytes < 65536" by (simp add: ones_complement_checksum_def)
  then show ?thesis using c by (simp add: checksumStr_hex4)
qed

lemma be_words_ones: "be_words (replicate (2 * k) 0xFF) = replicate k 65535"
  by (induction k) simp_all

lemma sum_list_replicate_nat: "sum_list (replicate k (c::nat)) = k * c"
  by (induction k) simp_all

lemma sum_of_ones: "sum_list (be_words (replicate 65538 0xFF)) = 2147516415"
proof -
  have "(65538::nat) = 2 * 32769" by simp
  then have "be_words (replicate 65538 0xFF) = replicate 32769 65535"
    using be_words_ones [of 32769] by simp
  then show ?thesis by (simp add: sum_list_replicate_nat)
qed

text \<open>
  C5 (checksum). The claim asks that the function computes, for every byte string, the
  one's-complement sum of the 16-bit words with all carries folded back, complemented
  within 16 bits, and that the encoder writes it as four upper-case hexadecimal digits.
  The digits are right for every byte string, and the value is right for up to 65536 bytes
  (\<open>calculateChecksum_up_to_64KiB\<close>). The fold is written with the signed shift
  \<open>sum >> 16\<close>: for 65538 bytes 0xFF the sum of the words is 0x80007FFF, which the shift
  reads as a negative number, and the function returns 1 (written "0001") where the
  checksum is 0.
\<close>

theorem checksum_beyond_31_bits:
  "calculateChecksum (replicate 65538 0xFF) = 1
   \<and> ones_complement_checksum (replicate 65538 0xFF) = 0
   \<and> checksumStr (calculateChecksum (replicate 65538 0xFF)) = ''0001''
   \<and> checksumStr (calculateChecksum bytes) = hex4 (nat (calculateChecksum bytes))"
proof -
  have f: "fold_carry 2147516415 = 65534"
    by (simp add: fold_carry.simps js_defs)
  have c: "calculateChecksum (replicate 65538 0xFF) = 1"
    by (simp add: calculateChecksum_def sum_words_eq sum_of_ones f js_defs)
  have g: "fold16 2147516415 = 65535"
    by (simp add: fold16.simps)
  have o: "ones_complement_checksum (replicate 65538 0xFF) = 0"
    by (simp add: ones_complement_checksum_def sum_of_ones g)
  have rep: "replicate 3 z = [z, z, z]" for z :: char
    by (simp add: numeral_3_eq_3)
  have s: "checksumStr 1 = ''0001''"
    by (simp add: checksumStr_eval rep)
  have h: "checksumStr (calculateChecksum bytes) = hex4 (nat (calculateChecksum bytes))"
    using calculateChecksum_range [of bytes] by (intro checksumStr_hex4) simp_all
  show ?thesis using c o s h by simp
qed

subsection \<open>Reassembly\<close>

text \<open>The loop body of \<open>handleData\<close> after the bytes before the first start-of-frame byte
  are dropped, on a buffer that begins with that byte.\<close>

definition frame_at :: "byte list \<Rightarrow> extraction" where
  "frame_at b =
     (if length b < 8 then Wait b
      else
        let eofIndex = indexOf b EOF 2 in
        if eofIndex = - 1 then Wait b
        else
          let hasDoubleEof = (buf_at b (eofIndex + 1) = Some EOF);
              checksumStart = (if hasDoubleEof then eofIndex + 2 else eofIndex + 1);
              frameEnd = checksumStart + 4
          in if int (length b) < frameEnd then Wait b
             else Frame (slice b 0 frameEnd) (slice_from b frameEnd))"

lemma index_from_dropWhile:
  "index_from v i bs = (if v \<in> set bs then int (i + length (takeWhile (\<lambda>x. x \<noteq> v) bs)) else - 1)"
  by (induction bs arbitrary: i) auto

lemma indexOf_0: "indexOf buf v 0 = (if v \<in> set buf then int (length (takeWhile (\<lambda>x. x \<noteq> v) buf)) else - 1)"
  by (simp add: indexOf_def index_from_dropWhile)

lemma no_sof: "SOF \<notin> set buf \<Longrightarrow> dropWhile (\<lambda>x. x \<noteq> SOF) buf = []"
  by (induction buf) auto

lemma takeWhile_sof_drop:
  "drop (length (takeWhile (\<lambda>x. x \<noteq> SOF) buf)) buf = dropWhile (\<lambda>x. x \<noteq> SOF) buf"
  by (simp add: dropWhile_eq_drop)

lemma next_frame_eq:
  "next_frame buf =
     (if buf = [] then Wait []
      else if indexOf buf SOF 0 = - 1 then Wait []
      else frame_at (if indexOf buf SOF 0 > 0 then slice_from buf (indexOf buf SOF 0) else buf))"
  by (simp add: next_frame_def frame_at_def Let_def)

lemma next_frame_canon:
  "next_frame buf =
     (if SOF \<in> set buf then frame_at (dropWhile (\<lambda>x. x \<noteq> SOF) buf) else Wait [])"
proof (cases "SOF \<in> set buf")
  case False
  then show ?thesis by (simp add: next_frame_eq indexOf_0)
next
  case True
  define n where "n = length (takeWhile (\<lambda>x. x \<noteq> SOF) buf)"
  have i: "indexOf buf SOF 0 = int n" using True by (simp add: indexOf_0 n_def)
  have d: "drop n buf = dropWhile (\<lambda>x. x \<noteq> SOF) buf"
    unfolding n_def by (rule takeWhile_sof_drop)
  have al: "(if indexOf buf SOF 0 > 0 then slice_from buf (indexOf buf SOF 0) else buf) =
            dropWhile (\<lambda>x. x \<noteq> SOF) buf"
  proof (cases "0 < n")
    case True
    then show ?thesis unfolding i using d by (simp add: slice_from_def)
  next
    case False
    then show ?thesis unfolding i using d by simp
  qed
  have "buf \<noteq> []" using True by auto
  then show ?thesis
    unfolding next_frame_eq al using True i by simp
qed

lemma frame_at_Wait: "frame_at b = Wait b' \<Longrightarrow> b' = b"
  by (auto simp: frame_at_def Let_def split: if_splits)

lemma index_from_append:
  "index_from v i bs \<noteq> - 1 \<Longrightarrow> index_from v i (bs @ cs) = index_from v i bs"
  by (induction bs arbitrary: i) auto

lemma indexOf_append:
  assumes "indexOf b v n \<noteq> - 1"
  shows "indexOf (b @ c) v n = indexOf b v n"
proof -
  have "n < length b"
    using assms by (cases "n < length b") (simp_all add: indexOf_def)
  then show ?thesis
    using assms by (simp add: indexOf_def index_from_append)
qed

lemma buf_at_append: "0 \<le> i \<Longrightarrow> i < int (length b) \<Longrightarrow> buf_at (b @ c) i = buf_at b i"
  by (auto simp: buf_at_def nth_append)

lemma frame_at_append:
  assumes "frame_at b = Frame f rest"
  shows "frame_at (b @ c) = Frame f (rest @ c)"
proof -
  define e where "e = indexOf b EOF 2"
  from assms have len: "\<not> length b < 8" and e: "e \<noteq> - 1"
    by (auto simp: frame_at_def Let_def e_def split: if_splits)
  have er: "2 \<le> e" "e < int (length b)"
    using indexOf_range [of b EOF 2] e by (simp_all add: e_def)
  have e': "indexOf (b @ c) EOF 2 = e"
    using e unfolding e_def by (rule indexOf_append)
  define fe where "fe = (if buf_at b (e + 1) = Some EOF then e + 2 else e + 1) + 4"
  from assms len e have fit: "\<not> int (length b) < fe"
    and f: "f = slice b 0 fe" and rest: "rest = slice_from b fe"
    by (auto simp: frame_at_def Let_def e_def fe_def split: if_splits)
  have at: "buf_at (b @ c) (e + 1) = buf_at b (e + 1)"
    using er fit unfolding fe_def by (intro buf_at_append) (auto split: if_splits)
  have fe0: "0 \<le> fe" using er by (simp add: fe_def)
  have "slice (b @ c) 0 fe = slice b 0 fe" "slice_from (b @ c) fe = slice_from b fe @ c"
    using fit fe0 by (simp_all add: slice_def slice_from_def)
  then show ?thesis
    using len fit e er
    unfolding frame_at_def [of "b @ c"] e' at Let_def fe_def [symmetric] f rest
    by (simp add: fe_def)
qed

lemma dropWhile_sof_append:
  "dropWhile (\<lambda>x. x \<noteq> SOF) (buf @ c) =
     (if SOF \<in> set buf then dropWhile (\<lambda>x. x \<noteq> SOF) buf @ c
      else dropWhile (\<lambda>x. x \<noteq> SOF) c)"
  by (induction buf) auto

lemma next_frame_Frame_append:
  assumes "next_frame buf = Frame f rest"
  shows "next_frame (buf @ c) = Frame f (rest @ c)"
proof -
  from assms have sof: "SOF \<in> set buf"
    and fa: "frame_at (dropWhile (\<lambda>x. x \<noteq> SOF) buf) = Frame f rest"
    unfolding next_frame_canon by (auto split: if_splits)
  have "SOF \<in> set (buf @ c)" using sof by simp
  then show ?thesis
    unfolding next_frame_canon [of "buf @ c"] dropWhile_sof_append
    using sof frame_at_append [OF fa, of c] by (simp only: if_True)
qed

lemma next_frame_Wait_append:
  assumes "next_frame buf = Wait b'"
  shows "next_frame (b' @ c) = next_frame (buf @ c)"
proof (cases "SOF \<in> set buf")
  case False
  then have "b' = []" using assms unfolding next_frame_canon by simp
  moreover have "next_frame (buf @ c) = next_frame c"
    unfolding next_frame_canon [of "buf @ c"] next_frame_canon [of c] dropWhile_sof_append
    using False by simp
  ultimately show ?thesis by simp
next
  case True
  then have b': "b' = dropWhile (\<lambda>x. x \<noteq> SOF) buf"
    using assms frame_at_Wait unfolding next_frame_canon by auto
  have ne: "b' \<noteq> []" unfolding b' using True by simp
  have "hd b' = SOF" using ne hd_dropWhile [of "\<lambda>x. x \<noteq> SOF" buf] unfolding b' by simp
  then obtain t where t: "b' = SOF # t" using ne by (cases b') simp_all
  have "SOF \<in> set (b' @ c)" "dropWhile (\<lambda>x. x \<noteq> SOF) (b' @ c) = b' @ c"
    unfolding t by simp_all
  then have "next_frame (b' @ c) = frame_at (b' @ c)"
    by (simp add: next_frame_canon)
  moreover have "next_frame (buf @ c) = frame_at (b' @ c)"
    unfolding next_frame_canon [of "buf @ c"] dropWhile_sof_append b' using True by simp
  ultimately show ?thesis by simp
qed

lemma handleCoapResponse_buffer_update:
  "handleCoapResponse cborDecode buf (st\<lparr>c_receiveBuffer := x\<rparr>) =
     (handleCoapResponse cborDecode buf st)\<lparr>c_receiveBuffer := x\<rparr>"
  by (simp add: handleCoapResponse_def Let_def split: sum.splits option.splits)

lemma dispatch_buffer_update:
  "dispatch cborDecode frameData (st\<lparr>c_receiveBuffer := x\<rparr>) =
     (dispatch cborDecode frameData st)\<lparr>c_receiveBuffer := x\<rparr>"
  by (simp add: dispatch_def handleCoapResponse_buffer_update split: sum.splits)

lemma handle_loop_buffer:
  "next_frame x = next_frame y \<Longrightarrow>
   handle_loop cborDecode (st\<lparr>c_receiveBuffer := x\<rparr>) = handle_loop cborDecode (st\<lparr>c_receiveBuffer := y\<rparr>)"
  by (subst handle_loop.simps, subst (2) handle_loop.simps) (simp split: extraction.splits)

lemma handle_loop_more:
  "handle_loop cborDecode (st\<lparr>c_receiveBuffer := c_receiveBuffer st @ c\<rparr>) =
   handle_loop cborDecode
     ((handle_loop cborDecode st)
        \<lparr>c_receiveBuffer := c_receiveBuffer (handle_loop cborDecode st) @ c\<rparr>)"
proof (induction cborDecode st rule: handle_loop.induct)
  case (1 cborDecode st)
  show ?case
  proof (cases "next_frame (c_receiveBuffer st)")
    case (Wait b')
    then have stop: "handle_loop cborDecode st = st\<lparr>c_receiveBuffer := b'\<rparr>"
      by (subst handle_loop.simps) simp
    show ?thesis
      unfolding stop
      using handle_loop_buffer [OF next_frame_Wait_append [OF Wait, of c], of cborDecode st]
      by simp
  next
    case (Frame f rest)
    let ?s2 = "dispatch cborDecode f (st\<lparr>c_receiveBuffer := rest\<rparr>)"
    have step: "handle_loop cborDecode st = handle_loop cborDecode ?s2"
      by (subst handle_loop.simps) (simp add: Frame)
    have b2: "c_receiveBuffer ?s2 = rest" by simp
    have "handle_loop cborDecode (st\<lparr>c_receiveBuffer := c_receiveBuffer st @ c\<rparr>) =
          handle_loop cborDecode (dispatch cborDecode f (st\<lparr>c_receiveBuffer := rest @ c\<rparr>))"
      by (subst handle_loop.simps) (simp add: next_frame_Frame_append [OF Frame])
    also have "dispatch cborDecode f (st\<lparr>c_receiveBuffer := rest @ c\<rparr>) =
               ?s2\<lparr>c_receiveBuffer := c_receiveBuffer ?s2 @ c\<rparr>"
      by (simp add: dispatch_buffer_update)
    also have "handle_loop cborDecode (?s2\<lparr>c_receiveBuffer := c_receiveBuffer ?s2 @ c\<rparr>) =
               handle_loop cborDecode
                 ((handle_loop cborDecode ?s2)
                    \<lparr>c_receiveBuffer := c_receiveBuffer (handle_loop cborDecode ?s2) @ c\<rparr>)"
      using Frame by (rule "1.IH")
    finally show ?thesis unfolding step .
  qed
qed

lemma handleData_append:
  "handleData cborDecode c2 (handleData cborDecode c1 st) = handleData cborDecode (c1 @ c2) st"
  using handle_loop_more [of cborDecode "st\<lparr>c_receiveBuffer := c_receiveBuffer st @ c1\<rparr>" c2]
  by (simp add: handleData_def)

lemma handleData_chunks:
  "foldl (\<lambda>s chunk. handleData cborDecode chunk s) (handleData cborDecode c st) chunks =
     handleData cborDecode (c @ concat chunks) st"
  by (induction chunks arbitrary: c) (simp_all add: handleData_append)
text \<open>A CoAP response (2.05 Content, message-ID 5, 50 payload bytes) and the MUP1 frame
  that carries it.\<close>

definition s6_message :: "byte list" where
  "s6_message =
     [0x60, 0x45, 0x00, 0x05, 0xFF, 0xA1, 0x01, 0x78, 0x2F, 0x61, 0x62, 0x63, 0x64, 0x65, 0x66,
      0x67, 0x68, 0x69, 0x6A, 0x6B, 0x6C, 0x6D, 0x6E, 0x6F, 0x70, 0x71, 0x72, 0x73, 0x74, 0x75,
      0x76, 0x77, 0x78, 0x79, 0x7A, 0x41, 0x42, 0x43, 0x44, 0x45, 0x46, 0x47, 0x48, 0x49, 0x4A,
      0x4B, 0x4C, 0x4D, 0x4E, 0x4F, 0x50, 0x51, 0x52, 0x53, 0x54]"

definition s6_frame :: "byte list" where
  "s6_frame =
     [0x3E, 0x43, 0x60, 0x45, 0x5C, 0x30, 0x05, 0x5C, 0x46, 0xA1, 0x01, 0x78, 0x2F, 0x61, 0x62,
      0x63, 0x64, 0x65, 0x66, 0x67, 0x68, 0x69, 0x6A, 0x6B, 0x6C, 0x6D, 0x6E, 0x6F, 0x70, 0x71,
      0x72, 0x73, 0x74, 0x75, 0x76, 0x77, 0x78, 0x79, 0x7A, 0x41, 0x42, 0x43, 0x44, 0x45, 0x46,
      0x47, 0x48, 0x49, 0x4A, 0x4B, 0x4C, 0x4D, 0x4E, 0x4F, 0x50, 0x51, 0x52, 0x53, 0x54, 0x3C,
      0x3C, 0x43, 0x30, 0x31, 0x46]"

lemma s6_checksum: "calculateChecksum (take 61 s6_frame) = 0xC01F"
  by (simp add: s6_frame_def checksum_eval)

lemma s6_checksumStr: "checksumStr 0xC01F = ''C01F''"
  by (simp add: checksumStr_eval)

lemma s6_encoded: "encodeFrame 0x43 s6_message = s6_frame"
proof -
  have pre: "[SOF, 0x43] @ concat (map escape_byte s6_message) @ [EOF] = take 60 s6_frame"
    by (simp add: s6_message_def s6_frame_def frame_defs)
  have pad: "take 60 s6_frame @ [EOF] = take 61 s6_frame"
    by (simp add: s6_frame_def EOF_def)
  have len: "length (take 60 s6_frame) mod 2 = 0"
    by (simp add: s6_frame_def)
  have tail: "take 61 s6_frame @ Buffer_from (map charCodeAt ''C01F'') = s6_frame"
    by (simp add: s6_frame_def Buffer_from_def charCodeAt_def)
  show ?thesis
    unfolding encodeFrame_def pre Let_def
    by (simp only: len pad if_True s6_checksum s6_checksumStr tail simp_thms)
qed

lemma s6_next_frame: "next_frame s6_frame = Frame s6_frame []"
  by (simp add: next_frame_def s6_frame_def buf_defs SOF_def EOF_def Let_def)

lemma s6_decoded:
  "decodeFrame s6_frame =
     Inr \<lparr>frame_type = CHR ''C'', frame_data = s6_message, frame_checksum = ''C01F'',
          frame_valid = True\<rparr>"
proof -
  have cs: "calculateChecksum (slice s6_frame 0 61) = 0xC01F"
    using s6_checksum by (simp add: slice_def)
  have ix: "indexOf s6_frame EOF 2 = 59"
    by (simp add: s6_frame_def indexOf_def EOF_def)
  have at: "buf_at s6_frame 60 = Some EOF" "buf_at s6_frame 0 = Some SOF"
    by (simp_all add: s6_frame_def buf_at_def EOF_def SOF_def)
  have data: "decode_loop (take (length s6_frame - 6) (drop 2 s6_frame)) False [] = s6_message"
    by (simp add: s6_frame_def s6_message_def EOF_def ESCAPE_def UNESCAPE_MAP_def)
  have prov: "toUpperCase (toString_ascii s6_frame 61 65) = ''C01F''"
    by (simp add: s6_frame_def toString_ascii_def slice_def toUpperCase_def toUpperCase_char_def
        fromCharCode_def char_of_def bit_0)
  have ty: "fromCharCode (s6_frame ! Suc 0) = CHR ''C''"
    by (simp add: s6_frame_def fromCharCode_def char_of_def bit_0)
  have len: "\<not> length s6_frame < 8" by (simp add: s6_frame_def)
  show ?thesis
    unfolding decodeFrame_def Let_def ix
    using len at by (simp add: data prov ty cs s6_checksumStr)
qed

lemma s6_parsed:
  "parseResponse cbor_decode_fails s6_message =
     Inr \<lparr>resp_version = 1, resp_type = 2, resp_code = 69, resp_messageId = 5,
          resp_payload = RawBytes (drop 5 s6_message), resp_codeClass = 2,
          resp_codeName = ''2.05 Content''\<rparr>"
  by (simp add: parseResponse_def s6_message_def js_defs buf_defs RESPONSE_CODES_def Let_def
      cbor_decode_fails_def)

lemma s6_whole:
  "handleData cbor_decode_fails s6_frame collision_state =
     collision_state\<lparr>c_timers := {}, c_pendingRequests := Map.empty,
        c_events := [LogResponse ''2.05 Content'' 5, Resolved 0 (RawBytes (drop 5 s6_message))]\<rparr>"
proof -
  have e: "next_frame [] = Wait []" by (simp add: next_frame_def)
  have b: "c_receiveBuffer collision_state = []" by (simp add: collision_state_def)
  have p: "c_pendingRequests collision_state 5 =
     Some \<lparr>p_promise = 0, p_timeout = 0, p_method = ''GET'', p_uri = ''/c'', p_sentAt = 0\<rparr>"
    by (simp add: collision_state_def)
  have h: "handleCoapResponse cbor_decode_fails s6_message collision_state =
     collision_state\<lparr>c_timers := {}, c_pendingRequests := Map.empty,
        c_events := [LogResponse ''2.05 Content'' 5, Resolved 0 (RawBytes (drop 5 s6_message))]\<rparr>"
    using handleCoapResponse_pending [OF s6_parsed, of collision_state] p
    by (simp add: collision_state_def)
  have d: "dispatch cbor_decode_fails s6_frame collision_state =
     collision_state\<lparr>c_timers := {}, c_pendingRequests := Map.empty,
        c_events := [LogResponse ''2.05 Content'' 5, Resolved 0 (RawBytes (drop 5 s6_message))]\<rparr>"
    by (simp add: dispatch_def s6_decoded h)
  have "handleData cbor_decode_fails s6_frame collision_state =
        handle_loop cbor_decode_fails (collision_state\<lparr>c_receiveBuffer := s6_frame\<rparr>)"
    by (simp add: handleData_def b)
  also have "\<dots> = handle_loop cbor_decode_fails
       (dispatch cbor_decode_fails s6_frame (collision_state\<lparr>c_receiveBuffer := []\<rparr>))"
    by (subst handle_loop.simps) (simp add: s6_next_frame)
  also have "collision_state\<lparr>c_receiveBuffer := []\<rparr> = collision_state"
    by (simp add: collision_state_def)
  also have "handle_loop cbor_decode_fails (dispatch cbor_decode_fails s6_frame collision_state) =
     dispatch cbor_decode_fails s6_frame collision_state"
    by (subst handle_loop.simps) (simp add: d e collision_state_def)
  finally show ?thesis by (simp add: d)
qed

subsection \<open>Round trip on payloads without the end-of-frame byte\<close>

text \<open>The byte that the encoder writes for one upper-case hexadecimal digit.\<close>

definition hex_byte :: "nat \<Rightarrow> byte" where
  "hex_byte d = word_of_int (charCodeAt (HEX d))"

lemma HEX_code: "d < 16 \<Longrightarrow> (of_char (HEX d) :: nat) = (if d < 10 then 48 + d else 55 + d)"
  by (auto simp: HEX_def)

lemma hex_byte_uint:
  assumes "d < 16"
  shows "uint (hex_byte d) = (if d < 10 then 48 + int d else 55 + int d)"
proof -
  have "charCodeAt (HEX d) = int (of_char (HEX d) :: nat)"
    by (simp add: charCodeAt_def of_nat_of_char)
  then have c: "charCodeAt (HEX d) = (if d < 10 then 48 + int d else 55 + int d)"
    using HEX_code [OF assms] by simp
  have "uint (word_of_int (charCodeAt (HEX d)) :: byte) = charCodeAt (HEX d)"
    using assms unfolding c by (intro uint_byte) auto
  then show ?thesis unfolding hex_byte_def c by simp
qed

lemma hex_byte_not_EOF: "d < 16 \<Longrightarrow> hex_byte d \<noteq> EOF"
proof
  assume d: "d < 16" and "hex_byte d = EOF"
  then have "uint (hex_byte d) = 60" by (simp add: EOF_def)
  then show False using hex_byte_uint [OF d] d by (auto split: if_splits)
qed

lemma hex_byte_ascii:
  assumes "d < 16"
  shows "toUpperCase_char (fromCharCode (hex_byte d AND 0x7F)) = HEX d"
proof -
  have u: "uint (hex_byte d) < 128" "0 \<le> uint (hex_byte d)"
    using hex_byte_uint [OF assms] assms by (auto split: if_splits)
  have "hex_byte d < 2 ^ 7"
    using u by (simp add: word_less_def)
  then have "hex_byte d AND mask 7 = hex_byte d"
    by (rule less_mask_eq)
  then have m: "hex_byte d AND 0x7F = hex_byte d"
    by (simp add: mask_eq_exp_minus_1)
  have n: "unat (hex_byte d) = (if d < 10 then 48 + d else 55 + d)"
    using hex_byte_uint [OF assms] by (auto simp: unat_eq_nat_uint split: if_splits)
  have f: "fromCharCode (hex_byte d) = HEX d"
    using assms by (auto simp: fromCharCode_def n HEX_def)
  have "(of_char (HEX d) :: nat) < 97"
    using HEX_code [OF assms] assms by (auto split: if_splits)
  then have "toUpperCase_char (HEX d) = HEX d"
    by (simp add: toUpperCase_char_def Let_def)
  then show ?thesis by (simp add: m f)
qed

lemma checksum_tail:
  assumes "0 \<le> c" "c < 65536"
  shows "Buffer_from (map charCodeAt (checksumStr c)) =
           map hex_byte [nat c div 4096, nat c div 256 mod 16, nat c div 16 mod 16, nat c mod 16]"
  by (simp add: checksumStr_hex4 [OF assms] hex4_def Buffer_from_def hex_byte_def)

lemma escaped_no_EOF:
  "EOF \<notin> set payload \<Longrightarrow> EOF \<notin> set (concat (map escape_byte payload))"
  by (induction payload)
     (auto simp: escape_byte_def needsEscape_def ESCAPE_MAP_def EOF_def ESCAPE_def)

lemma decode_loop_escaped:
  "EOF \<notin> set payload \<Longrightarrow>
   decode_loop (concat (map escape_byte payload) @ EOF # rest) False acc = acc @ payload"
proof (induction payload arbitrary: acc)
  case Nil
  show ?case by simp
next
  case (Cons b payload)
  then have b: "b \<noteq> EOF" and rest: "EOF \<notin> set payload" by auto
  have "decode_loop (escape_byte b @ bs) False acc = decode_loop bs False (acc @ [b])" for bs
    using b
    by (auto simp: escape_byte_def needsEscape_def ESCAPE_MAP_def UNESCAPE_MAP_def EOF_def
        ESCAPE_def)
  then show ?case using Cons.IH [OF rest] by simp
qed

lemma indexOf_first:
  assumes "n \<le> length xs" "v \<notin> set (drop n xs)"
  shows "indexOf (xs @ v # ys) v n = int (length xs)"
proof -
  have "takeWhile (\<lambda>x. x \<noteq> v) (drop n xs @ v # ys) = drop n xs"
    using assms(2) by (subst takeWhile_append2) auto
  then show ?thesis
    using assms by (simp add: indexOf_def index_from_dropWhile)
qed
text \<open>The layout of a frame: escaped payload without the end-of-frame byte, one or two
  end-of-frame bytes, four checksum digits.\<close>

lemma frame_layout:
  fixes t :: byte and esc pad :: "byte list" and d0 d1 d2 d3 :: nat
  assumes "EOF \<notin> set esc" and "pad = [] \<or> pad = [EOF]" and "d0 < 16"
  shows "length (SOF # t # esc @ EOF # pad @ map hex_byte [d0, d1, d2, d3]) =
           length esc + 7 + length pad"
    and "indexOf (SOF # t # esc @ EOF # pad @ map hex_byte [d0, d1, d2, d3]) EOF 2 =
           int (length esc) + 2"
    and "buf_at (SOF # t # esc @ EOF # pad @ map hex_byte [d0, d1, d2, d3])
           (int (length esc) + 2 + 1) = Some EOF \<longleftrightarrow> pad = [EOF]"
proof -
  let ?tail = "map hex_byte [d0, d1, d2, d3]"
  let ?out = "SOF # t # esc @ EOF # pad @ ?tail"
  show lo: "length ?out = length esc + 7 + length pad" by simp
  show "indexOf ?out EOF 2 = int (length esc) + 2"
  proof -
    have "?out = (SOF # t # esc) @ EOF # (pad @ ?tail)" by simp
    moreover have "indexOf ((SOF # t # esc) @ EOF # (pad @ ?tail)) EOF 2 = int (length (SOF # t # esc))"
      using assms(1) by (intro indexOf_first) simp_all
    ultimately show ?thesis by simp
  qed
  show "buf_at ?out (int (length esc) + 2 + 1) = Some EOF \<longleftrightarrow> pad = [EOF]"
  proof -
    have i: "nat (int (length esc) + 2 + 1) = length (SOF # t # esc @ [EOF])" by simp
    have o: "?out = (SOF # t # esc @ [EOF]) @ (pad @ ?tail)" by simp
    have "?out ! nat (int (length esc) + 2 + 1) = hd (pad @ ?tail)"
      unfolding i o by (simp add: nth_append hd_conv_nth del: length_Cons)
    moreover have "hd (pad @ ?tail) = EOF \<longleftrightarrow> pad = [EOF]"
      using assms(2) hex_byte_not_EOF [OF assms(3)] by auto
    moreover have "int (length esc) + 2 + 1 < int (length ?out)" by simp
    ultimately show ?thesis by (simp add: buf_at_def)
  qed
qed

lemma decodeFrame_parts:
  assumes esc: "EOF \<notin> set esc" "esc \<noteq> []"
    and pad: "pad = [] \<or> pad = [EOF]"
    and ds: "d0 < 16" "d1 < 16" "d2 < 16" "d3 < 16"
    and loop: "decode_loop (esc @ EOF # pad) False [] = payload"
    and cs: "checksumStr (calculateChecksum (SOF # t # esc @ EOF # pad)) = map HEX [d0, d1, d2, d3]"
  shows "decodeFrame (SOF # t # esc @ EOF # pad @ map hex_byte [d0, d1, d2, d3]) =
           Inr \<lparr>frame_type = fromCharCode t, frame_data = payload,
                frame_checksum = map HEX [d0, d1, d2, d3], frame_valid = True\<rparr>"
proof -
  define tail where "tail = map hex_byte [d0, d1, d2, d3]"
  define pre where "pre = SOF # t # esc @ EOF # pad"
  define out where "out = pre @ tail"
  have out: "SOF # t # esc @ EOF # pad @ map hex_byte [d0, d1, d2, d3] = out"
    by (simp add: out_def pre_def tail_def)
  note lay = frame_layout [OF esc(1) pad ds(1), where t = t and ?d1.0 = d1 and ?d2.0 = d2 and ?d3.0 = d3,
      unfolded out]
  have lt: "length tail = 4" by (simp add: tail_def)
  have lp: "length pre = length esc + 3 + length pad" by (simp add: pre_def)
  have lo: "length out = length esc + 7 + length pad" by (rule lay(1))
  have len: "\<not> length out < 8" using esc(2) lo by (cases esc) simp_all
  have sof: "buf_at out 0 = Some SOF" by (simp add: buf_at_def out_def pre_def)
  have ty: "out ! 1 = t" by (simp add: out_def pre_def)
  have region: "take (length out - 4 - 2) (drop 2 out) = esc @ EOF # pad"
    by (simp add: out_def pre_def lo [unfolded out_def pre_def] lt)
  define start where "start = int (length esc) + 3 + int (length pad)"
  have start: "(if pad = [EOF] then int (length esc) + 2 + 2 else int (length esc) + 2 + 1) = start"
    using pad by (auto simp: start_def)
  have fin: "int (length esc) + 2 + (if pad = [EOF] then 2 else 1) = start"
    using pad by (auto simp: start_def)
  have ns: "nat start = length pre" "nat (start + 4) = length out"
    by (simp_all add: start_def lp lo)
  have sl: "slice out start (start + 4) = tail"
    unfolding slice_def ns by (simp add: out_def)
  have prov: "toUpperCase (toString_ascii out start (start + 4)) = map HEX [d0, d1, d2, d3]"
    unfolding toString_ascii_def sl using ds
    by (simp add: tail_def toUpperCase_def hex_byte_ascii)
  have fc: "slice out 0 start = pre"
    unfolding slice_def ns by (simp add: out_def)
  have calc: "checksumStr (calculateChecksum pre) = map HEX [d0, d1, d2, d3]"
    using cs by (simp add: pre_def)
  have data: "decode_loop (take (length out - 4 - 2) (drop 2 out)) False [] = payload"
    unfolding region by (rule loop)
  show ?thesis
    unfolding out decodeFrame_def Let_def lay(2) lay(3) start fin
    using len sof by (simp only: if_False if_True simp_thms ty data prov fc calc)
qed

lemma next_frame_parts:
  assumes esc: "EOF \<notin> set esc" "esc \<noteq> []"
    and pad: "pad = [] \<or> pad = [EOF]"
    and ds: "d0 < 16"
  shows "next_frame (SOF # t # esc @ EOF # pad @ map hex_byte [d0, d1, d2, d3]) =
           Frame (SOF # t # esc @ EOF # pad @ map hex_byte [d0, d1, d2, d3]) []"
proof -
  define out where "out = SOF # t # esc @ EOF # pad @ map hex_byte [d0, d1, d2, d3]"
  note lay = frame_layout [OF esc(1) pad ds, where t = t and ?d1.0 = d1 and ?d2.0 = d2 and ?d3.0 = d3,
      folded out_def]
  have len: "\<not> length out < 8" using esc(2) lay(1) by (cases esc) simp_all
  have al: "SOF \<in> set out" "dropWhile (\<lambda>x. x \<noteq> SOF) out = out" by (simp_all add: out_def)
  have fe: "(if pad = [EOF] then int (length esc) + 2 + 2 else int (length esc) + 2 + 1) + 4 =
            int (length out)"
    using pad lay(1) by auto
  have "frame_at out = Frame out []"
    unfolding frame_at_def Let_def lay(2) lay(3) fe
    using len by (simp add: slice_def slice_from_def)
  then show ?thesis
    unfolding out_def [symmetric] next_frame_canon using al by simp
qed

lemma escaped_nonempty: "payload \<noteq> [] \<Longrightarrow> concat (map escape_byte payload) \<noteq> []"
  by (cases payload) (auto simp: escape_byte_def)

text \<open>What \<open>encodeFrame\<close> writes, by parts.\<close>

lemma encodeFrame_parts:
  fixes t :: byte and payload :: "byte list"
  assumes "esc = concat (map escape_byte payload)"
    and "pad = (if (length esc + 3) mod 2 = 0 then [EOF] else [])"
    and "c = nat (calculateChecksum (SOF # t # esc @ EOF # pad))"
  shows "encodeFrame t payload =
           SOF # t # esc @ EOF # pad
           @ map hex_byte [c div 4096, c div 256 mod 16, c div 16 mod 16, c mod 16]"
    and "checksumStr (calculateChecksum (SOF # t # esc @ EOF # pad)) =
           map HEX [c div 4096, c div 256 mod 16, c div 16 mod 16, c mod 16]"
proof -
  let ?pre = "SOF # t # esc @ EOF # pad"
  have r: "0 \<le> calculateChecksum ?pre" "calculateChecksum ?pre < 65536"
    using calculateChecksum_range [of ?pre] by simp_all
  have pre: "(if length ([SOF, t] @ esc @ [EOF]) mod 2 = 0 then ([SOF, t] @ esc @ [EOF]) @ [EOF]
              else [SOF, t] @ esc @ [EOF]) = ?pre"
    by (simp add: assms(2), presburger)
  have "encodeFrame t payload =
           ?pre @ map hex_byte [c div 4096, c div 256 mod 16, c div 16 mod 16, c mod 16]"
    unfolding encodeFrame_def Let_def assms(1) [symmetric] pre
    using checksum_tail [OF r] by (simp add: assms(3))
  then show "encodeFrame t payload =
           SOF # t # esc @ EOF # pad
           @ map hex_byte [c div 4096, c div 256 mod 16, c div 16 mod 16, c mod 16]"
    by simp
  show "checksumStr (calculateChecksum ?pre) =
           map HEX [c div 4096, c div 256 mod 16, c div 16 mod 16, c mod 16]"
    using checksumStr_hex4 [OF r] by (simp add: hex4_def assms(3))
qed

text \<open>
  For every type byte and every non-empty payload that does not contain 0x3C, decoding the
  encoded frame gives back the type and the payload, with a valid checksum. The two
  failures of the round trip, the payload that contains 0x3C and the empty payload, are
  the only ones.
\<close>

lemma decodeFrame_encodeFrame:
  assumes "payload \<noteq> []" "EOF \<notin> set payload"
  shows "\<exists>cs. decodeFrame (encodeFrame t payload) =
           Inr \<lparr>frame_type = fromCharCode t, frame_data = payload, frame_checksum = cs,
                frame_valid = True\<rparr>"
proof -
  define esc where "esc = concat (map escape_byte payload)"
  define pad where "pad = (if (length esc + 3) mod 2 = 0 then [EOF] else [])"
  define c where "c = nat (calculateChecksum (SOF # t # esc @ EOF # pad))"
  have c: "c < 65536"
    using calculateChecksum_range [of "SOF # t # esc @ EOF # pad"] unfolding c_def by linarith
  have e: "EOF \<notin> set esc" "esc \<noteq> []"
    unfolding esc_def
    using escaped_no_EOF [OF assms(2)] escaped_nonempty [OF assms(1)] by blast+
  have p: "pad = [] \<or> pad = [EOF]" by (simp add: pad_def)
  have l: "decode_loop (esc @ EOF # pad) False [] = payload"
    unfolding esc_def using decode_loop_escaped [OF assms(2), of pad "[]"] by simp
  have d: "c div 4096 < 16" "c div 256 mod 16 < 16" "c div 16 mod 16 < 16" "c mod 16 < 16"
    using c by simp_all
  show ?thesis
    unfolding encodeFrame_parts(1) [OF esc_def pad_def c_def]
    using decodeFrame_parts [OF e p d l encodeFrame_parts(2) [OF esc_def pad_def c_def]]
    by blast
qed

text \<open>A frame that \<open>encodeFrame\<close> made for a CoAP message (not empty, without 0x3C),
  received whole on an empty receive buffer, is dispatched once, to \<open>handleCoapResponse\<close>
  with the bytes of the message.\<close>

lemma handleData_encoded_coap:
  assumes "payload \<noteq> []" "EOF \<notin> set payload" "c_receiveBuffer st = []"
  shows "handleData cborDecode (encodeFrame 0x43 payload) st =
           handleCoapResponse cborDecode payload st"
proof -
  define esc where "esc = concat (map escape_byte payload)"
  define pad where "pad = (if (length esc + 3) mod 2 = 0 then [EOF] else [])"
  define c where "c = nat (calculateChecksum (SOF # 0x43 # esc @ EOF # pad))"
  have c: "c < 65536"
    using calculateChecksum_range [of "SOF # 0x43 # esc @ EOF # pad"] unfolding c_def by linarith
  have e: "EOF \<notin> set esc" "esc \<noteq> []"
    unfolding esc_def
    using escaped_no_EOF [OF assms(2)] escaped_nonempty [OF assms(1)] by blast+
  have p: "pad = [] \<or> pad = [EOF]" by (simp add: pad_def)
  have d: "c div 4096 < 16" using c by simp
  have nf: "next_frame (encodeFrame 0x43 payload) = Frame (encodeFrame 0x43 payload) []"
    unfolding encodeFrame_parts(1) [OF esc_def pad_def c_def]
    by (rule next_frame_parts [OF e p d])
  obtain cs where dec: "decodeFrame (encodeFrame 0x43 payload) =
       Inr \<lparr>frame_type = fromCharCode 0x43, frame_data = payload, frame_checksum = cs,
            frame_valid = True\<rparr>"
    using decodeFrame_encodeFrame [OF assms(1,2)] by blast
  have ty: "fromCharCode 0x43 = CHR ''C''" by (simp add: fromCharCode_def char_of_def bit_0)
  have st: "st\<lparr>c_receiveBuffer := []\<rparr> = st" using assms(3) by simp
  have disp: "dispatch cborDecode (encodeFrame 0x43 payload) st = handleCoapResponse cborDecode payload st"
    by (simp add: dispatch_def dec ty)
  have e0: "next_frame [] = Wait []" by (simp add: next_frame_def)
  have "handleData cborDecode (encodeFrame 0x43 payload) st =
        handle_loop cborDecode (st\<lparr>c_receiveBuffer := encodeFrame 0x43 payload\<rparr>)"
    by (simp add: handleData_def assms(3))
  also have "\<dots> = handle_loop cborDecode (dispatch cborDecode (encodeFrame 0x43 payload) st)"
    by (subst handle_loop.simps) (simp add: nf st)
  also have "\<dots> = handleCoapResponse cborDecode payload st"
    unfolding disp
    by (subst handle_loop.simps) (simp add: e0 assms(3))
  finally show ?thesis .
qed
subsection \<open>Chunked input\<close>

text \<open>
  C4: feeding a byte sequence to \<open>handleData\<close> in any chunks, or one byte at a time,
  leaves the client in the same state as feeding it in one piece: the same events (frames
  dispatched, promises settled, log lines) in the same order, the same pending requests
  and the same receive buffer. This holds for every byte sequence and every client state,
  so in particular for every valid frame. When the bytes are a frame that \<open>encodeFrame\<close>
  made for a CoAP message (not empty, without the byte 0x3C) and the receive buffer is
  empty before, every chunking ends in exactly one call of \<open>handleCoapResponse\<close>, with the
  bytes of the message.
\<close>

theorem reassembly_chunking_invariant:
  assumes "chunks \<noteq> []"
  shows "foldl (\<lambda>s chunk. handleData cborDecode chunk s) st chunks =
           handleData cborDecode (concat chunks) st
       \<and> (concat chunks \<noteq> [] \<longrightarrow>
            foldl (\<lambda>s b. handleData cborDecode [b] s) st (concat chunks) =
              handleData cborDecode (concat chunks) st)
       \<and> (payload \<noteq> [] \<and> EOF \<notin> set payload \<and> c_receiveBuffer st = []
            \<and> concat chunks = encodeFrame 0x43 payload \<longrightarrow>
            foldl (\<lambda>s chunk. handleData cborDecode chunk s) st chunks =
              handleCoapResponse cborDecode payload st)"
proof -
  have fold: "foldl (\<lambda>s chunk. handleData cborDecode chunk s) st cs =
                handleData cborDecode (concat cs) st" if "cs \<noteq> []" for cs
  proof -
    from \<open>cs \<noteq> []\<close> obtain c rest where cs: "cs = c # rest" by (cases cs) auto
    show ?thesis unfolding cs using handleData_chunks [of cborDecode c st rest] by simp
  qed
  have bytes: "foldl (\<lambda>s b. handleData cborDecode [b] s) st bs =
                 foldl (\<lambda>s chunk. handleData cborDecode chunk s) st (map (\<lambda>b. [b]) bs)" for bs
    by (induction bs arbitrary: st) simp_all
  have "concat (map (\<lambda>b. [b]) bs) = bs" for bs :: "byte list"
    by (induction bs) simp_all
  then have one: "foldl (\<lambda>s b. handleData cborDecode [b] s) st bs = handleData cborDecode bs st"
    if "bs \<noteq> []" for bs
    unfolding bytes using fold [of "map (\<lambda>b. [b]) bs"] that by simp
  have coap: "foldl (\<lambda>s chunk. handleData cborDecode chunk s) st chunks =
              handleCoapResponse cborDecode payload st"
    if "payload \<noteq> []" "EOF \<notin> set payload" "c_receiveBuffer st = []"
      "concat chunks = encodeFrame 0x43 payload"
    unfolding fold [OF assms] that(4) using that(1-3) by (rule handleData_encoded_coap)
  show ?thesis using fold [OF assms] one coap by blast
qed

theorem reassembly_chunking_invariant_witness:
  "foldl (\<lambda>s chunk. handleData cbor_decode_fails chunk s) collision_state
      [take 1 s6_frame, take 7 (drop 1 s6_frame), take 20 (drop 8 s6_frame), drop 28 s6_frame] =
     handleData cbor_decode_fails s6_frame collision_state
   \<and> foldl (\<lambda>s b. handleData cbor_decode_fails [b] s) collision_state s6_frame =
     handleData cbor_decode_fails s6_frame collision_state
   \<and> handleData cbor_decode_fails s6_frame collision_state =
     handleCoapResponse cbor_decode_fails s6_message collision_state
   \<and> c_events (handleData cbor_decode_fails s6_frame collision_state) =
     [LogResponse ''2.05 Content'' 5, Resolved 0 (RawBytes (drop 5 s6_message))]
   \<and> encodeFrame 0x43 s6_message = s6_frame"
proof -
  let ?chunks = "[take 1 s6_frame, take 7 (drop 1 s6_frame), take 20 (drop 8 s6_frame), drop 28 s6_frame]"
  have ne: "?chunks \<noteq> []" by simp
  have cc: "concat ?chunks = s6_frame" by (simp add: s6_frame_def)
  have nf: "s6_frame \<noteq> []" by (simp add: s6_frame_def)
  have pl: "s6_message \<noteq> []" "EOF \<notin> set s6_message"
    by (simp_all add: s6_message_def EOF_def)
  have b: "c_receiveBuffer collision_state = []" by (simp add: collision_state_def)
  note t = reassembly_chunking_invariant [OF ne, of cbor_decode_fails collision_state s6_message,
      unfolded cc]
  have c1: "foldl (\<lambda>s chunk. handleData cbor_decode_fails chunk s) collision_state ?chunks =
     handleData cbor_decode_fails s6_frame collision_state"
    using t by blast
  have c2: "foldl (\<lambda>s b. handleData cbor_decode_fails [b] s) collision_state s6_frame =
     handleData cbor_decode_fails s6_frame collision_state"
    using t nf by blast
  have c0: "foldl (\<lambda>s chunk. handleData cbor_decode_fails chunk s) collision_state ?chunks =
     handleCoapResponse cbor_decode_fails s6_message collision_state"
    using t pl b s6_encoded [symmetric] by blast
  have c3: "handleData cbor_decode_fails s6_frame collision_state =
     handleCoapResponse cbor_decode_fails s6_message collision_state"
    using c1 [symmetric] c0 by (rule trans)
  have c4: "c_events (handleData cbor_decode_fails s6_frame collision_state) =
     [LogResponse ''2.05 Content'' 5, Resolved 0 (RawBytes (drop 5 s6_message))]"
    by (simp add: s6_whole)
  show ?thesis
    using c1 c2 c3 c4 s6_encoded by (intro conjI)
qed

end
